theory Spec2Isabelle
  imports Main "HOL-Library.Word"
begin

unbundle bit_operations_syntax

section \<open>Clipboard content (package windows)\<close>

text \<open>
  \<^verbatim>\<open>type ContentType int\<close> with the constants \<^verbatim>\<open>Empty, Text, Files, Image\<close> (iota).
\<close>

datatype ContentType = Empty | Text | Files | Image

text \<open>
  \<^verbatim>\<open>type ClipboardContent struct\<close>. The controller reads the fields \<^verbatim>\<open>ID\<close> and
  \<^verbatim>\<open>Timestamp\<close> besides the ones of the declaration; the field names carry the prefix
  \<open>c\<close> because \<open>Text\<close> and \<open>Files\<close> are already the constants of the content type.
  A \<^verbatim>\<open>time.Time\<close> is the number of nanoseconds since Go's zero instant.
\<close>

record ClipboardContent =
  cID :: string
  cType :: ContentType
  cText :: string
  cFiles :: "string list"
  cImagePNG :: "8 word list"
  cSizeBytes :: int
  cPreview :: string
  cTimestamp :: int

text \<open>
  \<^verbatim>\<open>func (t Time) Sub(u Time) Duration\<close>: a \<^verbatim>\<open>Duration\<close> is an int64 of nanoseconds, and
  the difference saturates at the largest and smallest duration.
\<close>

definition maxDuration :: int where
  "maxDuration = 2 ^ 63 - 1"

definition minDuration :: int where
  "minDuration = - (2 ^ 63)"

definition time_Sub :: "int \<Rightarrow> int \<Rightarrow> int" where
  "time_Sub t u =
     (let d = t - u
      in if maxDuration < d then maxDuration
         else if d < minDuration then minDuration
         else d)"

definition time_Second :: int where
  "time_Second = 1000000000"

section \<open>The queue controller (package app)\<close>

text \<open>The two fields of \<^verbatim>\<open>config.Config\<close> that the controller reads.\<close>

record Config =
  Queue_DefaultOrder :: string
  Clipboard_RestoreDelayMs :: int

text \<open>\<^verbatim>\<open>config.Macro\<close>.\<close>

record Macro =
  mName :: string
  mHotkey :: string
  mSignature :: string
  mText :: string
  mMode :: string

text \<open>
  \<^verbatim>\<open>type Controller struct\<close>. The mutex \<^verbatim>\<open>mu\<close> and the callback \<^verbatim>\<open>onStateChange\<close> are
  not fields of the record: every operation returns, with the new state, the list of the
  lock operations, callback invocations and clipboard backend calls it made, in order.
\<close>

record Controller =
  queueEnabled :: bool
  queue :: "ClipboardContent list"
  history :: "ClipboardContent list"
  snapshotOnEnable :: "ClipboardContent option"
  selfEventsRing :: "32 word list"
  ringIndex :: int
  ringSize :: int
  cfg :: Config
  orderStrategy :: string

datatype event =
    Lock
  | Unlock
  | StateChange bool int string
  | ClipRead
  | ClipWrite ClipboardContent
  | CtrlV
  | TypeString string

text \<open>A run-time panic of the Go program.\<close>

datatype panic = IndexOutOfRange | DivideByZero

text \<open>
  The results of the backend calls are inputs of the model: \<^verbatim>\<open>windows.Read()\<close> returns a
  content and an error (\<open>None\<close> is \<^verbatim>\<open>nil\<close>), \<^verbatim>\<open>windows.Write\<close> and \<^verbatim>\<open>windows.SendCtrlV\<close>
  an error, \<^verbatim>\<open>windows.GetClipboardSequenceNumber()\<close> a \<^verbatim>\<open>uint32\<close>.
\<close>

type_synonym read_result = "ClipboardContent \<times> string option"

text \<open>\<^verbatim>\<open>func NewController(cfg *config.Config) *Controller\<close>\<close>

definition ringBufferSize :: nat where
  "ringBufferSize = 8"

definition NewController :: "Config \<Rightarrow> Controller" where
  "NewController cf =
     (let order = Queue_DefaultOrder cf;
          order = (if order \<noteq> ''LIFO'' \<and> order \<noteq> ''FIFO'' then ''LIFO'' else order)
      in \<lparr> queueEnabled = False,
           queue = [],
           history = [],
           snapshotOnEnable = None,
           selfEventsRing = replicate ringBufferSize 0,
           ringIndex = 0,
           ringSize = int ringBufferSize,
           cfg = cf,
           orderStrategy = order \<rparr>)"

text \<open>Go's \<^verbatim>\<open>%\<close> on integers truncates towards zero; a zero divisor panics.\<close>

definition go_rem :: "int \<Rightarrow> int \<Rightarrow> int" where
  "go_rem a b = sgn a * (\<bar>a\<bar> mod \<bar>b\<bar>)"

text \<open>\<^verbatim>\<open>func (c *Controller) addSelfEventLocked(seq uint32)\<close>\<close>

definition addSelfEventLocked :: "Controller \<Rightarrow> 32 word \<Rightarrow> panic + Controller" where
  "addSelfEventLocked c seq =
     (if ringIndex c < 0 \<or> int (length (selfEventsRing c)) \<le> ringIndex c
      then Inl IndexOutOfRange
      else
        let c1 = c\<lparr>selfEventsRing := (selfEventsRing c)[nat (ringIndex c) := seq]\<rparr>
        in if ringSize c1 = 0 then Inl DivideByZero
           else Inr (c1\<lparr>ringIndex := go_rem (ringIndex c1 + 1) (ringSize c1)\<rparr>))"

text \<open>\<^verbatim>\<open>func (c *Controller) addSelfEvent(seq uint32)\<close>\<close>

definition addSelfEvent :: "Controller \<Rightarrow> 32 word \<Rightarrow> panic + Controller \<times> event list" where
  "addSelfEvent c seq =
     (case addSelfEventLocked c seq of
        Inl p \<Rightarrow> Inl p
      | Inr c1 \<Rightarrow> Inr (c1, [Lock, Unlock]))"

text \<open>\<^verbatim>\<open>func (c *Controller) isSelfEvent(seq uint32) bool\<close>: the loop over the slots.\<close>

fun ring_scan :: "32 word list \<Rightarrow> 32 word \<Rightarrow> bool" where
  "ring_scan [] seq = False"
| "ring_scan (s # ss) seq = (if s = seq then True else ring_scan ss seq)"

definition isSelfEvent :: "Controller \<Rightarrow> 32 word \<Rightarrow> bool" where
  "isSelfEvent c seq = ring_scan (selfEventsRing c) seq"

text \<open>
  The deduplication check of \<^verbatim>\<open>OnClipboardUpdate\<close> (the block under
  \<^verbatim>\<open>// Deduplication check\<close>): true where the handler returns as for a duplicate.
\<close>

definition duplicateOfLast :: "ClipboardContent list \<Rightarrow> ClipboardContent \<Rightarrow> bool" where
  "duplicateOfLast hist content =
     (if 0 < length hist then
        let lst = last hist
        in if cType content = cType lst
              \<and> time_Sub (cTimestamp content) (cTimestamp lst) < time_Second
           then
             let contentMatch =
                   (if cType content = Text then cText content = cText lst
                    else cSizeBytes content = cSizeBytes lst)
             in contentMatch
           else False
      else False)"

text \<open>
  \<^verbatim>\<open>func (c *Controller) OnClipboardUpdate()\<close>, given the sequence number and the result
  of \<^verbatim>\<open>windows.Read()\<close> that the call observes. The read is made under the lock, after
  the self-event check; the deferred \<^verbatim>\<open>Unlock\<close> runs last.
\<close>

definition OnClipboardUpdate ::
  "Controller \<Rightarrow> 32 word \<Rightarrow> read_result \<Rightarrow> Controller \<times> event list" where
  "OnClipboardUpdate c seq rd =
     (if isSelfEvent c seq then (c, [Lock, Unlock])
      else
        case rd of
          (content, Some err) \<Rightarrow> (c, [Lock, ClipRead, Unlock])
        | (content, None) \<Rightarrow>
            if cType content = Empty then (c, [Lock, ClipRead, Unlock])
            else if duplicateOfLast (history c) content then (c, [Lock, ClipRead, Unlock])
            else
              let c1 = (if 50 \<le> length (history c)
                        then c\<lparr>history := drop 1 (history c)\<rparr> else c);
                  c2 = c1\<lparr>history := history c1 @ [content]\<rparr>
              in if queueEnabled c2 then
                   let c3 = c2\<lparr>queue := queue c2 @ [content]\<rparr>
                   in (c3, [Lock, ClipRead,
                            StateChange (queueEnabled c3) (int (length (queue c3)))
                              (orderStrategy c3),
                            Unlock])
                 else (c2, [Lock, ClipRead, Unlock]))"

text \<open>Sequencing of steps that may panic.\<close>

definition then_do :: "panic + 'a \<Rightarrow> ('a \<Rightarrow> panic + 'b) \<Rightarrow> panic + 'b" where
  "then_do r f = (case r of Inl p \<Rightarrow> Inl p | Inr x \<Rightarrow> f x)"

text \<open>
  \<^verbatim>\<open>func (c *Controller) PasteNext()\<close>. The record holds what the backend returns to the
  calls of one run: the content and error of \<^verbatim>\<open>Read\<close>, the error of the first \<^verbatim>\<open>Write\<close>,
  the sequence number read after it, the error of \<^verbatim>\<open>SendCtrlV\<close>, the error of the
  restoring \<^verbatim>\<open>Write\<close> and the sequence number read after that one. The third
  component of the result is the local variable \<^verbatim>\<open>item\<close>, the dequeued content.
\<close>

record paste_io =
  io_before :: read_result
  io_write_err :: "string option"
  io_seq_written :: "32 word"
  io_ctrlv_err :: "string option"
  io_restore_err :: "string option"
  io_seq_restored :: "32 word"

definition PasteNext ::
  "Controller \<Rightarrow> paste_io \<Rightarrow> panic + Controller \<times> event list \<times> ClipboardContent option" where
  "PasteNext c io =
     (if \<not> queueEnabled c then Inr (c, [Lock, Unlock], None)
      else if length (queue c) = 0 then Inr (c, [Lock, Unlock], None)
      else
        let (item, c1) =
              (if orderStrategy c = ''LIFO''
               then (queue c ! (length (queue c) - 1),
                     c\<lparr>queue := take (length (queue c) - 1) (queue c)\<rparr>)
               else (queue c ! 0, c\<lparr>queue := drop 1 (queue c)\<rparr>));
            ev1 = [Lock,
                   StateChange (queueEnabled c1) (int (length (queue c1))) (orderStrategy c1),
                   Unlock, ClipRead]
        in case io_before io of
             (before, Some err) \<Rightarrow> Inr (c1, ev1, Some item)
           | (before, None) \<Rightarrow>
               (case io_write_err io of
                  Some err \<Rightarrow> Inr (c1, ev1 @ [ClipWrite item], Some item)
                | None \<Rightarrow>
                    then_do (addSelfEvent c1 (io_seq_written io)) (\<lambda>(c2, ev2).
                      (case io_ctrlv_err io of
                         Some err \<Rightarrow>
                           then_do (addSelfEvent c2 (io_seq_restored io)) (\<lambda>(c3, ev3).
                             Inr (c3, ev1 @ [ClipWrite item] @ ev2
                                        @ [CtrlV, ClipWrite before] @ ev3, Some item))
                       | None \<Rightarrow>
                           then_do (addSelfEvent c2 (io_seq_restored io)) (\<lambda>(c3, ev3).
                             Inr (c3, ev1 @ [ClipWrite item] @ ev2
                                        @ [CtrlV, ClipWrite before] @ ev3, Some item))))))"

text \<open>\<^verbatim>\<open>func (c *Controller) ToggleQueue()\<close>\<close>

record toggle_io =
  tg_snap :: read_result
  tg_write_err :: "string option"
  tg_seq :: "32 word"

definition ToggleQueue :: "Controller \<Rightarrow> toggle_io \<Rightarrow> panic + Controller \<times> event list" where
  "ToggleQueue c io =
     (if \<not> queueEnabled c then
        let (snap, err) = tg_snap io;
            c1 = c\<lparr>snapshotOnEnable := Some snap\<rparr>;
            c2 = c1\<lparr>queue := []\<rparr>;
            c3 = c2\<lparr>queueEnabled := True\<rparr>
        in Inr (c3, [Lock, Unlock, ClipRead, Lock, Unlock,
                     StateChange (queueEnabled c3) (int (length (queue c3))) (orderStrategy c3)])
      else
        let c1 = c\<lparr>queueEnabled := False\<rparr>;
            c2 = c1\<lparr>queue := []\<rparr>;
            snapshotToRestore = snapshotOnEnable c2;
            c3 = (if snapshotOnEnable c2 \<noteq> None then c2\<lparr>snapshotOnEnable := None\<rparr> else c2)
        in case snapshotToRestore of
             None \<Rightarrow>
               Inr (c3, [Lock, Unlock, StateChange (queueEnabled c3) 0 (orderStrategy c3)])
           | Some snap \<Rightarrow>
               then_do (addSelfEvent c3 (tg_seq io)) (\<lambda>(c4, ev).
                 Inr (c4, [Lock, Unlock, ClipWrite snap] @ ev
                            @ [StateChange (queueEnabled c4) 0 (orderStrategy c4)])))"

text \<open>\<^verbatim>\<open>func (c *Controller) ClearQueue()\<close>\<close>

definition ClearQueue :: "Controller \<Rightarrow> Controller \<times> event list" where
  "ClearQueue c =
     (if length (queue c) = 0
      then (c, [Lock, StateChange (queueEnabled c) 0 (orderStrategy c), Unlock])
      else
        let c1 = c\<lparr>queue := []\<rparr>
        in (c1, [Lock, StateChange (queueEnabled c1) 0 (orderStrategy c1), Unlock]))"

text \<open>\<^verbatim>\<open>func (c *Controller) ToggleOrder()\<close>\<close>

definition ToggleOrder :: "Controller \<Rightarrow> Controller \<times> event list" where
  "ToggleOrder c =
     (let c1 = (if orderStrategy c = ''LIFO'' then c\<lparr>orderStrategy := ''FIFO''\<rparr>
                else c\<lparr>orderStrategy := ''LIFO''\<rparr>)
      in (c1, [Lock,
               StateChange (queueEnabled c1) (int (length (queue c1))) (orderStrategy c1),
               Unlock]))"

text \<open>The errors that the controller's operations return.\<close>

datatype app_error =
    InvalidOrder string
  | InvalidIndex int int
  | NotFound string
  | UnsupportedMode string
  | BackendError string

text \<open>\<^verbatim>\<open>func (c *Controller) SetOrderStrategy(order string) error\<close>\<close>

definition SetOrderStrategy ::
  "Controller \<Rightarrow> string \<Rightarrow> Controller \<times> event list \<times> app_error option" where
  "SetOrderStrategy c order =
     (if order \<noteq> ''LIFO'' \<and> order \<noteq> ''FIFO''
      then (c, [Lock, Unlock], Some (InvalidOrder order))
      else if orderStrategy c = order then (c, [Lock, Unlock], None)
      else
        let c1 = c\<lparr>orderStrategy := order\<rparr>
        in (c1, [Lock,
                 StateChange (queueEnabled c1) (int (length (queue c1))) (orderStrategy c1),
                 Unlock], None))"

text \<open>\<^verbatim>\<open>func (c *Controller) RemoveItem(index int) error\<close>\<close>

definition RemoveItem ::
  "Controller \<Rightarrow> int \<Rightarrow> Controller \<times> event list \<times> app_error option" where
  "RemoveItem c index =
     (if index < 0 \<or> int (length (queue c)) \<le> index
      then (c, [Lock, Unlock], Some (InvalidIndex index (int (length (queue c)))))
      else
        let c1 = c\<lparr>queue := take (nat index) (queue c) @ drop (nat (index + 1)) (queue c)\<rparr>
        in (c1, [Lock,
                 StateChange (queueEnabled c1) (int (length (queue c1))) (orderStrategy c1),
                 Unlock], None))"

text \<open>
  \<^verbatim>\<open>func (c *Controller) CopyItem(id string) error\<close>: the loop returns at the first
  history item with the identifier.
\<close>

fun findByID :: "ClipboardContent list \<Rightarrow> string \<Rightarrow> ClipboardContent option" where
  "findByID [] ident = None"
| "findByID (item # items) ident = (if cID item = ident then Some item else findByID items ident)"

definition CopyItem ::
  "Controller \<Rightarrow> string \<Rightarrow> string option \<Rightarrow> 32 word
     \<Rightarrow> panic + Controller \<times> event list \<times> app_error option" where
  "CopyItem c ident write_err seq =
     (case findByID (history c) ident of
        None \<Rightarrow> Inr (c, [Lock, Unlock], Some (NotFound ident))
      | Some item \<Rightarrow>
          (case write_err of
             Some err \<Rightarrow> Inr (c, [Lock, ClipWrite item, Unlock], Some (BackendError err))
           | None \<Rightarrow>
               then_do (addSelfEventLocked c seq) (\<lambda>c1.
                 Inr (c1, [Lock, ClipWrite item, Unlock], None))))"

text \<open>\<^verbatim>\<open>func (c *Controller) ExecuteMacro(macro config.Macro) error\<close>\<close>

record macro_io =
  mio_type_err :: "string option"
  mio_before :: read_result
  mio_write_err :: "string option"
  mio_seq_written :: "32 word"
  mio_ctrlv_err :: "string option"
  mio_restore_err :: "string option"
  mio_seq_restored :: "32 word"

definition macroContent :: "Macro \<Rightarrow> ClipboardContent" where
  "macroContent macro =
     \<lparr> cID = [], cType = Text, cText = mText macro, cFiles = [], cImagePNG = [],
       cSizeBytes = 0, cPreview = [], cTimestamp = 0 \<rparr>"

definition ExecuteMacro ::
  "Controller \<Rightarrow> Macro \<Rightarrow> macro_io \<Rightarrow> panic + Controller \<times> event list \<times> app_error option" where
  "ExecuteMacro c macro io =
     (if mMode macro = ''type'' then
        (case mio_type_err io of
           Some err \<Rightarrow> Inr (c, [TypeString (mText macro)], Some (BackendError err))
         | None \<Rightarrow> Inr (c, [TypeString (mText macro)], None))
      else if mMode macro = ''paste'' then
        (case mio_before io of
           (oldContent, Some err) \<Rightarrow> Inr (c, [ClipRead], Some (BackendError err))
         | (oldContent, None) \<Rightarrow>
             (let content = macroContent macro
              in (case mio_write_err io of
                  Some err \<Rightarrow> Inr (c, [ClipRead, ClipWrite content], Some (BackendError err))
                | None \<Rightarrow>
                    then_do (addSelfEvent c (mio_seq_written io)) (\<lambda>(c1, ev1).
                      (case mio_ctrlv_err io of
                         Some err \<Rightarrow>
                           then_do (addSelfEvent c1 (mio_seq_restored io)) (\<lambda>(c2, ev2).
                             Inr (c2, [ClipRead, ClipWrite content] @ ev1
                                        @ [CtrlV, ClipWrite oldContent] @ ev2,
                                  Some (BackendError err)))
                       | None \<Rightarrow>
                           (case mio_restore_err io of
                              Some err \<Rightarrow>
                                Inr (c1, [ClipRead, ClipWrite content] @ ev1
                                           @ [CtrlV, ClipWrite oldContent],
                                     Some (BackendError err))
                            | None \<Rightarrow>
                                then_do (addSelfEvent c1 (mio_seq_restored io)) (\<lambda>(c2, ev2).
                                  Inr (c2, [ClipRead, ClipWrite content] @ ev1
                                             @ [CtrlV, ClipWrite oldContent] @ ev2, None))))))))
      else Inr (c, [], Some (UnsupportedMode (mMode macro))))"

text \<open>\<^verbatim>\<open>GetQueue\<close>, \<^verbatim>\<open>GetHistory\<close> and \<^verbatim>\<open>GetOrderStrategy\<close> return copies of the fields.\<close>

definition GetQueue :: "Controller \<Rightarrow> ClipboardContent list" where
  "GetQueue c = queue c"

definition GetHistory :: "Controller \<Rightarrow> ClipboardContent list" where
  "GetHistory c = history c"

definition GetOrderStrategy :: "Controller \<Rightarrow> string" where
  "GetOrderStrategy c = orderStrategy c"

text \<open>One call of an operation of the controller, with what the backend returns to it.\<close>

datatype op =
    OpToggleQueue toggle_io
  | OpOnClipboardUpdate "32 word" read_result
  | OpPasteNext paste_io
  | OpClearQueue
  | OpToggleOrder
  | OpSetOrderStrategy string
  | OpRemoveItem int
  | OpCopyItem string "string option" "32 word"
  | OpExecuteMacro Macro macro_io
  | OpAddSelfEvent "32 word"

fun step :: "Controller \<Rightarrow> op \<Rightarrow> panic + Controller \<times> event list" where
  "step c (OpToggleQueue io) = ToggleQueue c io"
| "step c (OpOnClipboardUpdate seq rd) = Inr (OnClipboardUpdate c seq rd)"
| "step c (OpPasteNext io) = then_do (PasteNext c io) (\<lambda>(c1, ev, item). Inr (c1, ev))"
| "step c OpClearQueue = Inr (ClearQueue c)"
| "step c OpToggleOrder = Inr (ToggleOrder c)"
| "step c (OpSetOrderStrategy order) =
     (case SetOrderStrategy c order of (c1, ev, err) \<Rightarrow> Inr (c1, ev))"
| "step c (OpRemoveItem index) = (case RemoveItem c index of (c1, ev, err) \<Rightarrow> Inr (c1, ev))"
| "step c (OpCopyItem ident write_err seq) =
     then_do (CopyItem c ident write_err seq) (\<lambda>(c1, ev, err). Inr (c1, ev))"
| "step c (OpExecuteMacro macro io) =
     then_do (ExecuteMacro c macro io) (\<lambda>(c1, ev, err). Inr (c1, ev))"
| "step c (OpAddSelfEvent seq) = addSelfEvent c seq"

text \<open>The states that a run of operations reaches from a new controller.\<close>

inductive reachable :: "Controller \<Rightarrow> bool" where
  reachable_new: "reachable (NewController cf)"
| reachable_step: "reachable c \<Longrightarrow> step c oper = Inr (c1, ev) \<Longrightarrow> reachable c1"

text \<open>
  Whether a trace invokes the state-change callback between a \<open>Lock\<close> and the
  \<open>Unlock\<close> that follows it; the first argument tells whether the lock is held at the
  start of the trace.
\<close>

fun notifies_under_lock :: "bool \<Rightarrow> event list \<Rightarrow> bool" where
  "notifies_under_lock held [] = False"
| "notifies_under_lock held (Lock # es) = notifies_under_lock True es"
| "notifies_under_lock held (Unlock # es) = notifies_under_lock False es"
| "notifies_under_lock held (StateChange enabled n mode # es) =
     (held \<or> notifies_under_lock held es)"
| "notifies_under_lock held (e # es) = notifies_under_lock held es"

text \<open>
  The ring of a controller is well formed when the cursor points at a slot and the
  recorded size is the number of slots.
\<close>

definition ring_ok :: "Controller \<Rightarrow> bool" where
  "ring_ok c \<longleftrightarrow>
     0 \<le> ringIndex c \<and> ringIndex c < int (length (selfEventsRing c))
     \<and> ringSize c = int (length (selfEventsRing c))"

text \<open>\<^verbatim>\<open>func defaultConfig() *Config\<close> (package config), on the fields above.\<close>

definition defaultConfig :: Config where
  "defaultConfig = \<lparr> Queue_DefaultOrder = ''LIFO'', Clipboard_RestoreDelayMs = 250 \<rparr>"

text \<open>A text content as \<^verbatim>\<open>windows.Read()\<close> returns it, for the concrete runs below.\<close>

definition textItem :: "string \<Rightarrow> string \<Rightarrow> int \<Rightarrow> ClipboardContent" where
  "textItem ident txt ts =
     \<lparr> cID = ident, cType = Text, cText = txt, cFiles = [], cImagePNG = [],
       cSizeBytes = int (length txt), cPreview = txt, cTimestamp = ts \<rparr>"

definition pasteOk :: paste_io where
  "pasteOk = \<lparr> io_before = (textItem ''u'' ''user'' 0, None), io_write_err = None,
               io_seq_written = 11, io_ctrlv_err = None, io_restore_err = None,
               io_seq_restored = 12 \<rparr>"

text \<open>A run of \<open>OnClipboardUpdate\<close> calls, each with what it observes.\<close>

fun updates :: "Controller \<Rightarrow> (32 word \<times> read_result) list \<Rightarrow> Controller" where
  "updates c [] = c"
| "updates c ((seq, rd) # calls) = updates (fst (OnClipboardUpdate c seq rd)) calls"

text \<open>
  An update is appended to the history when it passes the four tests of
  \<open>OnClipboardUpdate\<close>: no self event, no read error, no empty content, no duplicate of
  the last entry.
\<close>

definition accepts :: "Controller \<Rightarrow> 32 word \<Rightarrow> read_result \<Rightarrow> bool" where
  "accepts c seq rd \<longleftrightarrow>
     \<not> isSelfEvent c seq \<and> snd rd = None \<and> cType (fst rd) \<noteq> Empty
     \<and> \<not> duplicateOfLast (history c) (fst rd)"

text \<open>The contents that a run of updates appends, in the order of the calls.\<close>

fun appended :: "Controller \<Rightarrow> (32 word \<times> read_result) list \<Rightarrow> ClipboardContent list" where
  "appended c [] = []"
| "appended c ((seq, rd) # calls) =
     (if accepts c seq rd then [fst rd] else [])
     @ appended (fst (OnClipboardUpdate c seq rd)) calls"

text \<open>The last 50 elements of a list, in their order.\<close>

definition mostRecent50 :: "'a list \<Rightarrow> 'a list" where
  "mostRecent50 xs = drop (length xs - 50) xs"

text \<open>
  A run of updates that read the same text every two seconds, under the sequence number 1.
\<close>

definition tick :: "nat \<Rightarrow> ClipboardContent" where
  "tick i = textItem ''t'' ''tick'' (2000000000 * int i)"

definition ticks :: "nat \<Rightarrow> (32 word \<times> read_result) list" where
  "ticks n = map (\<lambda>i. (1, (tick i, None))) [0..<n]"

text \<open>
  A new controller after one update with the text \<open>a\<close> read at instant 0, and the same
  text read again half a second and two seconds after it.
\<close>

definition echoStart :: Controller where
  "echoStart = fst (OnClipboardUpdate (NewController defaultConfig) 1 (textItem ''x'' ''a'' 0, None))"

definition echoFirst :: ClipboardContent where
  "echoFirst = textItem ''y'' ''a'' 500000000"

definition echoSecond :: ClipboardContent where
  "echoSecond = textItem ''z'' ''a'' 2000000000"

section \<open>Input signatures (package windows)\<close>

text \<open>
  \<^verbatim>\<open>type InputSourceType uint8\<close> with its constants, and the modifier flags.
\<close>

definition SourceKeyboard :: "8 word" where "SourceKeyboard = 0"
definition SourceMouseButton :: "8 word" where "SourceMouseButton = 1"
definition SourceMouseWheel :: "8 word" where "SourceMouseWheel = 2"
definition SourceHID :: "8 word" where "SourceHID = 3"
definition SourceUnknown :: "8 word" where "SourceUnknown = 4"

definition ModCtrl :: "8 word" where "ModCtrl = 1"
definition ModAlt :: "8 word" where "ModAlt = 2"
definition ModShift :: "8 word" where "ModShift = 4"
definition ModWin :: "8 word" where "ModWin = 8"

text \<open>\<^verbatim>\<open>type InputSignature struct\<close>\<close>

record InputSignature =
  Hash :: "64 word"
  RawData :: "8 word list"
  SourceType :: "8 word"
  DisplayHint :: string
  RecordedAt :: int
  ModifierState :: "8 word"

text \<open>
  \<^verbatim>\<open>var keyMap = map[string]uint32{...}\<close>, in the order of the declaration. A Go map is
  ranged over in an order that the runtime chooses, so the functions that range over
  \<^verbatim>\<open>keyMap\<close> take that order, a list with the entries of \<open>keyMap\<close>, as their first argument.
\<close>

definition keyMap :: "(string \<times> 32 word) list" where
  "keyMap =
     [(''A'', 0x41), (''B'', 0x42), (''C'', 0x43), (''D'', 0x44), (''E'', 0x45), (''F'', 0x46),
      (''G'', 0x47), (''H'', 0x48), (''I'', 0x49), (''J'', 0x4A), (''K'', 0x4B), (''L'', 0x4C),
      (''M'', 0x4D), (''N'', 0x4E), (''O'', 0x4F), (''P'', 0x50), (''Q'', 0x51), (''R'', 0x52),
      (''S'', 0x53), (''T'', 0x54), (''U'', 0x55), (''V'', 0x56), (''W'', 0x57), (''X'', 0x58),
      (''Y'', 0x59), (''Z'', 0x5A),
      (''0'', 0x30), (''1'', 0x31), (''2'', 0x32), (''3'', 0x33), (''4'', 0x34),
      (''5'', 0x35), (''6'', 0x36), (''7'', 0x37), (''8'', 0x38), (''9'', 0x39),
      (''F1'', 0x70), (''F2'', 0x71), (''F3'', 0x72), (''F4'', 0x73),
      (''F5'', 0x74), (''F6'', 0x75), (''F7'', 0x76), (''F8'', 0x77),
      (''F9'', 0x78), (''F10'', 0x79), (''F11'', 0x7A), (''F12'', 0x7B),
      (''VOLUMEMUTE'', 0xAD), (''VOLUMEDOWN'', 0xAE), (''VOLUMEUP'', 0xAF),
      (''MEDIANEXTTRACK'', 0xB0), (''MEDIAPREVTRACK'', 0xB1), (''MEDIASTOP'', 0xB2),
      (''MEDIAPLAYPAUSE'', 0xB3), (''LAUNCHMAIL'', 0xB4), (''LAUNCHMEDIASELECT'', 0xB5),
      (''LAUNCHAPP1'', 0xB6), (''LAUNCHAPP2'', 0xB7),
      (''AUDIOVOLUMEMUTE'', 0xAD), (''AUDIOVOLUMEDOWN'', 0xAE), (''AUDIOVOLUMEUP'', 0xAF),
      (''GRAVE'', 0xC0), (''TILDE'', 0xC0)]"

text \<open>\<^verbatim>\<open>func vkToName(vk uint32) string\<close>\<close>

fun vkToName :: "(string \<times> 32 word) list \<Rightarrow> 32 word \<Rightarrow> string" where
  "vkToName [] vk = []"
| "vkToName ((name, code) # entries) vk = (if code = vk then name else vkToName entries vk)"

text \<open>
  \<^verbatim>\<open>hash/fnv\<close>: the 64-bit FNV-1a hash, \<^verbatim>\<open>New64a\<close>, \<^verbatim>\<open>Write\<close> and \<^verbatim>\<open>Sum64\<close>.
\<close>

definition fnv_offset64 :: "64 word" where
  "fnv_offset64 = 14695981039346656037"

definition fnv_prime64 :: "64 word" where
  "fnv_prime64 = 1099511628211"

fun fnv_Write :: "64 word \<Rightarrow> 8 word list \<Rightarrow> 64 word" where
  "fnv_Write h [] = h"
| "fnv_Write h (b # bs) = fnv_Write ((h XOR ucast b) * fnv_prime64) bs"

text \<open>\<^verbatim>\<open>func (s *InputSignature) computeHash() uint64\<close>\<close>

definition computeHash :: "InputSignature \<Rightarrow> 64 word" where
  "computeHash s =
     fnv_Write (fnv_Write (fnv_Write fnv_offset64 [SourceType s]) [ModifierState s]) (RawData s)"

text \<open>
  \<^verbatim>\<open>binary.LittleEndian\<close>: \<^verbatim>\<open>Uint16\<close> of two bytes, and the two bytes that
  \<^verbatim>\<open>PutUint16\<close> and \<^verbatim>\<open>binary.Write\<close> produce for a \<^verbatim>\<open>uint16\<close>.
\<close>

definition Uint16 :: "8 word \<Rightarrow> 8 word \<Rightarrow> 16 word" where
  "Uint16 b0 b1 = ucast b0 OR push_bit 8 (ucast b1)"

definition PutUint16 :: "16 word \<Rightarrow> 8 word list" where
  "PutUint16 v = [ucast v, ucast (drop_bit 8 v)]"

text \<open>
  The verbs of \<^verbatim>\<open>fmt.Sprintf\<close> that the hint uses: \<^verbatim>\<open>%X\<close> (upper-case hexadecimal
  without leading zeros) and \<^verbatim>\<open>%d\<close> of an unsigned value.
\<close>

definition hexDigit :: "nat \<Rightarrow> char" where
  "hexDigit d = ''0123456789ABCDEF'' ! d"

fun fmtX :: "nat \<Rightarrow> string" where
  "fmtX n = (if n < 16 then [hexDigit n] else fmtX (n div 16) @ [hexDigit (n mod 16)])"

fun fmtD :: "nat \<Rightarrow> string" where
  "fmtD n = (if n < 10 then [hexDigit n] else fmtD (n div 10) @ [hexDigit (n mod 10)])"

text \<open>\<^verbatim>\<open>strings.Join(parts, "+")\<close>\<close>

fun Join :: "string list \<Rightarrow> string \<Rightarrow> string" where
  "Join [] sep = []"
| "Join [p] sep = p"
| "Join (p # ps) sep = p @ sep @ Join ps sep"

text \<open>
  \<^verbatim>\<open>func (s *InputSignature) generateDisplayHint() string\<close>: the parts that the four
  modifier tests append, then the one part that the switch on the source type appends,
  joined with \<^verbatim>\<open>"+"\<close>.
\<close>

definition modifierParts :: "8 word \<Rightarrow> string list" where
  "modifierParts mods =
     (if mods AND ModCtrl \<noteq> 0 then [''Ctrl''] else [])
     @ (if mods AND ModAlt \<noteq> 0 then [''Alt''] else [])
     @ (if mods AND ModShift \<noteq> 0 then [''Shift''] else [])
     @ (if mods AND ModWin \<noteq> 0 then [''Win''] else [])"

definition sourcePart ::
  "(string \<times> 32 word) list \<Rightarrow> 8 word \<Rightarrow> 8 word list \<Rightarrow> 64 word \<Rightarrow> string" where
  "sourcePart iter sourceType rawData hash =
     (if sourceType = SourceKeyboard then
        (if 2 \<le> length rawData then
           let vk = Uint16 (rawData ! 0) (rawData ! 1);
               name = vkToName iter (ucast vk)
           in if name \<noteq> [] then name
              else ''Key[0x'' @ fmtX (unat vk) @ '']''
         else ''Key[?]'')
      else if sourceType = SourceMouseButton then
        (if 1 \<le> length rawData then
           let btn = rawData ! 0
           in ''Mouse'' @ fmtD (unat btn)
         else ''Mouse[?]'')
      else if sourceType = SourceMouseWheel then
        (if 2 \<le> length rawData then
           let delta = sint (Uint16 (rawData ! 0) (rawData ! 1))
           in if 0 < delta then ''WheelUp'' else ''WheelDown''
         else ''Wheel[?]'')
      else if sourceType = SourceHID then
        (if 0 < length rawData then ''HID['' @ fmtX (unat (rawData ! 0)) @ ''...]''
         else ''HID[?]'')
      else ''Input[0x'' @ fmtX (unat (hash AND 0xFFFF)) @ '']'')"

definition generateDisplayHint :: "(string \<times> 32 word) list \<Rightarrow> InputSignature \<Rightarrow> string" where
  "generateDisplayHint iter s =
     Join (modifierParts (ModifierState s)
           @ [sourcePart iter (SourceType s) (RawData s) (Hash s)]) ''+''"

text \<open>
  \<^verbatim>\<open>func NewInputSignature(sourceType InputSourceType, rawData []byte, modifiers uint8)\<close>,
  given the instant that \<^verbatim>\<open>time.Now()\<close> returns.
\<close>

definition NewInputSignature ::
  "(string \<times> 32 word) list \<Rightarrow> int \<Rightarrow> 8 word \<Rightarrow> 8 word list \<Rightarrow> 8 word \<Rightarrow> InputSignature" where
  "NewInputSignature iter now sourceType rawData modifiers =
     (let sig = \<lparr> Hash = 0, RawData = rawData, SourceType = sourceType, DisplayHint = [],
                   RecordedAt = now, ModifierState = modifiers \<rparr>;
          sig = sig\<lparr>Hash := computeHash sig\<rparr>;
          sig = sig\<lparr>DisplayHint := generateDisplayHint iter sig\<rparr>
      in sig)"

text \<open>\<^verbatim>\<open>func (s *InputSignature) Equals(other *InputSignature) bool\<close>\<close>

definition Equals :: "InputSignature \<Rightarrow> InputSignature \<Rightarrow> bool" where
  "Equals s other =
     (if Hash s \<noteq> Hash other then False
      else if SourceType s \<noteq> SourceType other then False
      else if ModifierState s \<noteq> ModifierState other then False
      else RawData s = RawData other)"

text \<open>\<^verbatim>\<open>func (s *InputSignature) ToBytes() []byte\<close>\<close>

definition ToBytes :: "InputSignature \<Rightarrow> 8 word list" where
  "ToBytes s =
     [1] @ [SourceType s] @ [ModifierState s]
     @ PutUint16 (word_of_nat (length (RawData s))) @ RawData s"

text \<open>
  \<^verbatim>\<open>func SignatureFromBytes(data []byte)\<close>. The errors of the
  reads are dropped by the code: \<^verbatim>\<open>binary.Read\<close> leaves \<^verbatim>\<open>rawLen\<close> at 0 when fewer than
  two bytes are left (and consumes them), and \<^verbatim>\<open>buf.Read\<close> fills as much of the zeroed
  \<^verbatim>\<open>RawData\<close> as there are bytes left.
\<close>

datatype sig_error = TooShort | UnsupportedVersion "8 word" | CorruptInput

definition SignatureFromBytes ::
  "(string \<times> 32 word) list \<Rightarrow> 8 word list \<Rightarrow> sig_error + InputSignature" where
  "SignatureFromBytes iter data =
     (if length data < 4 then Inl TooShort
      else
        let version = data ! 0
        in if version \<noteq> 1 then Inl (UnsupportedVersion version)
           else
             let srcType = data ! 1;
                 mods = data ! 2;
                 rest = drop 3 data;
                 (rawLen, rest) =
                    (if 2 \<le> length rest then (Uint16 (rest ! 0) (rest ! 1), drop 2 rest)
                     else (0, []));
                 raw = take (unat rawLen) rest @ replicate (unat rawLen - length rest) 0;
                 sig = \<lparr> Hash = 0, RawData = raw, SourceType = srcType, DisplayHint = [],
                          RecordedAt = 0, ModifierState = mods \<rparr>;
                 sig = sig\<lparr>Hash := computeHash sig\<rparr>;
                 sig = sig\<lparr>DisplayHint := generateDisplayHint iter sig\<rparr>
             in Inr sig)"

section \<open>The signature matcher\<close>

text \<open>
  \<^verbatim>\<open>type RegisteredSignature struct\<close>; a callback is a Go function value, \<open>None\<close> for
  \<^verbatim>\<open>nil\<close>. The registry \<^verbatim>\<open>signatures map[uint64][]*RegisteredSignature\<close> is a map from
  hashes to buckets.
\<close>

record 'cb RegisteredSignature =
  Signature :: InputSignature
  Callback :: "'cb option"
  ID :: string

type_synonym 'cb matcher = "64 word \<rightharpoonup> 'cb RegisteredSignature list"

text \<open>\<^verbatim>\<open>func NewSignatureMatcher() *SignatureMatcher\<close>\<close>

definition NewSignatureMatcher :: "'cb matcher" where
  "NewSignatureMatcher = Map.empty"

text \<open>\<^verbatim>\<open>func (m *SignatureMatcher) Register(sig InputSignature, id string, callback func())\<close>\<close>

definition Register ::
  "'cb matcher \<Rightarrow> InputSignature \<Rightarrow> string \<Rightarrow> 'cb option \<Rightarrow> 'cb matcher" where
  "Register m sig ident callback =
     (let reg = \<lparr> Signature = sig, Callback = callback, ID = ident \<rparr>
      in m(Hash sig \<mapsto> (case m (Hash sig) of None \<Rightarrow> [] | Some regs \<Rightarrow> regs) @ [reg]))"

text \<open>
  \<^verbatim>\<open>func (m *SignatureMatcher) Unregister(id string)\<close>: the outer loop ranges over the
  hashes in the order \<open>hs\<close>, the inner loop removes the first registration of the bucket
  with the identifier, and the function returns there.
\<close>

fun removeFirstID :: "'cb RegisteredSignature list \<Rightarrow> string \<Rightarrow> 'cb RegisteredSignature list option" where
  "removeFirstID [] ident = None"
| "removeFirstID (reg # regs) ident =
     (if ID reg = ident then Some regs
      else case removeFirstID regs ident of None \<Rightarrow> None | Some regs1 \<Rightarrow> Some (reg # regs1))"

fun Unregister :: "64 word list \<Rightarrow> 'cb matcher \<Rightarrow> string \<Rightarrow> 'cb matcher" where
  "Unregister [] m ident = m"
| "Unregister (h # hs) m ident =
     (case m h of
        None \<Rightarrow> Unregister hs m ident
      | Some regs \<Rightarrow>
          (case removeFirstID regs ident of
             None \<Rightarrow> Unregister hs m ident
           | Some regs1 \<Rightarrow> if length regs1 = 0 then m(h := None) else m(h \<mapsto> regs1)))"

text \<open>\<^verbatim>\<open>func (m *SignatureMatcher) UnregisterAll()\<close>\<close>

definition UnregisterAll :: "'cb matcher \<Rightarrow> 'cb matcher" where
  "UnregisterAll m = Map.empty"

text \<open>\<^verbatim>\<open>func (m *SignatureMatcher) Match(sig *InputSignature) func()\<close>\<close>

fun matchLoop :: "'cb RegisteredSignature list \<Rightarrow> InputSignature \<Rightarrow> 'cb option" where
  "matchLoop [] sig = None"
| "matchLoop (reg # regs) sig =
     (if Equals (Signature reg) sig then Callback reg else matchLoop regs sig)"

definition Match :: "'cb matcher \<Rightarrow> InputSignature \<Rightarrow> 'cb option" where
  "Match m sig = (case m (Hash sig) of None \<Rightarrow> None | Some regs \<Rightarrow> matchLoop regs sig)"

text \<open>
  Two signatures are structurally equal when source type, modifier state and raw bytes
  are equal.
\<close>

definition structEq :: "InputSignature \<Rightarrow> InputSignature \<Rightarrow> bool" where
  "structEq a b \<longleftrightarrow>
     SourceType a = SourceType b \<and> ModifierState a = ModifierState b \<and> RawData a = RawData b"

text \<open>Every registration lies in the bucket of its signature's hash.\<close>

definition buckets_ok :: "'cb matcher \<Rightarrow> bool" where
  "buckets_ok m \<longleftrightarrow> (\<forall>h regs. m h = Some regs \<longrightarrow> (\<forall>r \<in> set regs. Hash (Signature r) = h))"

text \<open>The registries that the operations of the matcher build from a new one.\<close>

inductive built :: "'cb matcher \<Rightarrow> bool" where
  built_New: "built NewSignatureMatcher"
| built_Register: "built m \<Longrightarrow> built (Register m sig ident callback)"
| built_Unregister: "built m \<Longrightarrow> built (Unregister hs m ident)"
| built_UnregisterAll: "built m \<Longrightarrow> built (UnregisterAll m)"

text \<open>
  What \<open>SignatureFromBytes\<close> builds from a source type, a modifier state and raw bytes:
  hash and hint are computed from the three.
\<close>

definition decoded :: "(string \<times> 32 word) list \<Rightarrow> 8 word \<Rightarrow> 8 word \<Rightarrow> 8 word list \<Rightarrow> InputSignature" where
  "decoded iter srcType mods raw =
     (let sig = \<lparr> Hash = 0, RawData = raw, SourceType = srcType, DisplayHint = [],
                   RecordedAt = 0, ModifierState = mods \<rparr>;
          sig = sig\<lparr>Hash := computeHash sig\<rparr>;
          sig = sig\<lparr>DisplayHint := generateDisplayHint iter sig\<rparr>
      in sig)"

text \<open>A signature with 65536 raw bytes, and the signature of Ctrl+Alt+C.\<close>

definition bigSignature :: InputSignature where
  "bigSignature = NewInputSignature keyMap 0 SourceHID (replicate 65536 7) 0"

definition ctrlAltC :: InputSignature where
  "ctrlAltC = NewInputSignature keyMap 77 SourceKeyboard [0x43, 0] 3"

text \<open>
  A registry with two registrations in one bucket: the signatures carry the same hash and
  differ in their raw bytes.
\<close>

definition sigOne :: InputSignature where
  "sigOne = \<lparr> Hash = 5, RawData = [1], SourceType = 0, DisplayHint = ''one'',
               RecordedAt = 0, ModifierState = 0 \<rparr>"

definition sigTwo :: InputSignature where
  "sigTwo = \<lparr> Hash = 5, RawData = [2], SourceType = 0, DisplayHint = ''two'',
               RecordedAt = 0, ModifierState = 0 \<rparr>"

definition twoInBucket :: "nat matcher" where
  "twoInBucket = Register (Register NewSignatureMatcher sigOne ''one'' (Some 1)) sigTwo ''two'' (Some 2)"

text \<open>A registry in which Ctrl+Alt+C was registered with a \<^verbatim>\<open>nil\<close> callback.\<close>

definition nilRegistry :: "nat matcher" where
  "nilRegistry = Register NewSignatureMatcher ctrlAltC ''toggle'' None"

section \<open>Legacy hotkey strings\<close>

text \<open>
  \<^verbatim>\<open>strings.ToUpper\<close>, \<^verbatim>\<open>strings.Split\<close> and \<^verbatim>\<open>strings.TrimSpace\<close> on ASCII strings,
  the strings of the legacy form. The Go functions also map letters and trim spaces
  outside ASCII; the definitions leave such bytes as they are, so they stand for the Go
  functions on the strings that \<open>isASCII\<close> accepts only, and what is proved of the parsers
  for all strings below carries that hypothesis.
\<close>

definition isASCII :: "string \<Rightarrow> bool" where
  "isASCII s \<longleftrightarrow> (\<forall>c \<in> set s. (of_char c :: nat) < 128)"

definition toUpperChar :: "char \<Rightarrow> char" where
  "toUpperChar c =
     (let n = (of_char c :: nat)
      in if 97 \<le> n \<and> n \<le> 122 then char_of (n - 32) else c)"

definition ToUpper :: "string \<Rightarrow> string" where
  "ToUpper s = map toUpperChar s"

fun Split :: "string \<Rightarrow> char \<Rightarrow> string list" where
  "Split [] sep = [[]]"
| "Split (c # cs) sep =
     (if c = sep then [] # Split cs sep
      else case Split cs sep of
             [] \<Rightarrow> [[c]]
           | p # ps \<Rightarrow> (c # p) # ps)"

definition isSpace :: "char \<Rightarrow> bool" where
  "isSpace c \<longleftrightarrow> (of_char c :: nat) \<in> {9, 10, 11, 12, 13, 32}"

definition TrimSpace :: "string \<Rightarrow> string" where
  "TrimSpace s = rev (dropWhile isSpace (rev (dropWhile isSpace s)))"

text \<open>The modifier constants of \<^verbatim>\<open>RegisterHotKey\<close>.\<close>

definition MOD_ALT :: "32 word" where "MOD_ALT = 0x0001"
definition MOD_CONTROL :: "32 word" where "MOD_CONTROL = 0x0002"
definition MOD_SHIFT :: "32 word" where "MOD_SHIFT = 0x0004"
definition MOD_WIN :: "32 word" where "MOD_WIN = 0x0008"

datatype parse_error = UnknownKey string | NoValidKey string

text \<open>
  \<^verbatim>\<open>func parseHotkey(hotkeyString string) (uint32, uint32, error)\<close> of package config.
  The loop over the parts carries \<^verbatim>\<open>modifiers\<close>, \<^verbatim>\<open>vk\<close> and \<^verbatim>\<open>foundKey\<close>, and ends with
  the error at the first part that is neither a modifier nor a key of \<^verbatim>\<open>keyMap\<close> (the
  three packages declare the same table).
\<close>

fun config_parseParts ::
  "string list \<Rightarrow> 32 word \<Rightarrow> 32 word \<Rightarrow> bool \<Rightarrow> parse_error + 32 word \<times> 32 word \<times> bool" where
  "config_parseParts [] modifiers vk foundKey = Inr (modifiers, vk, foundKey)"
| "config_parseParts (p # ps) modifiers vk foundKey =
     (let part = TrimSpace p
      in if part = ''CTRL'' \<or> part = ''CONTROL''
         then config_parseParts ps (modifiers OR MOD_CONTROL) vk foundKey
         else if part = ''ALT'' then config_parseParts ps (modifiers OR MOD_ALT) vk foundKey
         else if part = ''SHIFT'' then config_parseParts ps (modifiers OR MOD_SHIFT) vk foundKey
         else if part = ''WIN'' then config_parseParts ps (modifiers OR MOD_WIN) vk foundKey
         else case map_of keyMap part of
                Some code \<Rightarrow> config_parseParts ps modifiers code True
              | None \<Rightarrow> Inl (UnknownKey part))"

definition config_parseHotkey :: "string \<Rightarrow> 32 word \<times> 32 word \<times> parse_error option" where
  "config_parseHotkey hotkeyString =
     (case config_parseParts (Split (ToUpper hotkeyString) CHR ''+'') 0 0 False of
        Inl err \<Rightarrow> (0, 0, Some err)
      | Inr (modifiers, vk, foundKey) \<Rightarrow>
          if \<not> foundKey then (0, 0, Some (NoValidKey hotkeyString))
          else (modifiers, vk, None))"

text \<open>
  \<^verbatim>\<open>func (h *Hotkeys) parseHotkey(hotkeyString string) (uint32, uint32, error)\<close> of
  package windows: the loop returns \<^verbatim>\<open>0, 0, nil\<close> at an unknown part (\<open>None\<close> below), and
  so does the function when no key was found.
\<close>

fun Hotkeys_parseParts ::
  "string list \<Rightarrow> 32 word \<Rightarrow> 32 word \<Rightarrow> bool \<Rightarrow> (32 word \<times> 32 word \<times> bool) option" where
  "Hotkeys_parseParts [] modifiers vk foundKey = Some (modifiers, vk, foundKey)"
| "Hotkeys_parseParts (p # ps) modifiers vk foundKey =
     (let part = TrimSpace p
      in if part = ''CTRL'' \<or> part = ''CONTROL''
         then Hotkeys_parseParts ps (modifiers OR MOD_CONTROL) vk foundKey
         else if part = ''ALT'' then Hotkeys_parseParts ps (modifiers OR MOD_ALT) vk foundKey
         else if part = ''SHIFT'' then Hotkeys_parseParts ps (modifiers OR MOD_SHIFT) vk foundKey
         else if part = ''WIN'' then Hotkeys_parseParts ps (modifiers OR MOD_WIN) vk foundKey
         else case map_of keyMap part of
                Some code \<Rightarrow> Hotkeys_parseParts ps modifiers code True
              | None \<Rightarrow> None)"

definition Hotkeys_parseHotkey :: "string \<Rightarrow> 32 word \<times> 32 word \<times> parse_error option" where
  "Hotkeys_parseHotkey hotkeyString =
     (case Hotkeys_parseParts (Split (ToUpper hotkeyString) CHR ''+'') 0 0 False of
        None \<Rightarrow> (0, 0, None)
      | Some (modifiers, vk, foundKey) \<Rightarrow>
          if \<not> foundKey then (0, 0, None)
          else (modifiers, vk, None))"

text \<open>
  \<^verbatim>\<open>func SignatureFromBase64(encoded string)\<close>, over the
  decoder \<^verbatim>\<open>base64.StdEncoding.DecodeString\<close> (\<open>None\<close> where it returns an error).
\<close>

definition SignatureFromBase64 ::
  "(string \<Rightarrow> 8 word list option) \<Rightarrow> (string \<times> 32 word) list \<Rightarrow> string
     \<Rightarrow> sig_error + InputSignature" where
  "SignatureFromBase64 decode iter encoded =
     (case decode encoded of
        None \<Rightarrow> Inl CorruptInput
      | Some data \<Rightarrow> SignatureFromBytes iter data)"

text \<open>
  \<^verbatim>\<open>func (h *Host) parseHotkeyToSignature(hotkeyStr string) *InputSignature\<close>: the loop
  of the legacy form skips a part that is neither a modifier nor a key, and the function
  returns \<^verbatim>\<open>nil\<close> (\<open>None\<close>) only where \<^verbatim>\<open>vk\<close> is still 0.
\<close>

fun Host_parseParts :: "string list \<Rightarrow> 8 word \<Rightarrow> 32 word \<Rightarrow> 8 word \<times> 32 word" where
  "Host_parseParts [] mods vk = (mods, vk)"
| "Host_parseParts (p # ps) mods vk =
     (let part = TrimSpace p
      in if part = ''CTRL'' \<or> part = ''CONTROL'' then Host_parseParts ps (mods OR ModCtrl) vk
         else if part = ''ALT'' then Host_parseParts ps (mods OR ModAlt) vk
         else if part = ''SHIFT'' then Host_parseParts ps (mods OR ModShift) vk
         else if part = ''WIN'' then Host_parseParts ps (mods OR ModWin) vk
         else case map_of keyMap part of
                Some code \<Rightarrow> Host_parseParts ps mods code
              | None \<Rightarrow> Host_parseParts ps mods vk)"

definition parseHotkeyToSignature ::
  "(string \<Rightarrow> 8 word list option) \<Rightarrow> (string \<times> 32 word) list \<Rightarrow> int \<Rightarrow> string
     \<Rightarrow> InputSignature option" where
  "parseHotkeyToSignature decode iter now hotkeyStr =
     (if take 4 hotkeyStr = ''sig:'' then
        (case SignatureFromBase64 decode iter (drop 4 hotkeyStr) of
           Inl err \<Rightarrow> None
         | Inr sig \<Rightarrow> Some sig)
      else
        let (mods, vk) = Host_parseParts (Split (ToUpper hotkeyStr) CHR ''+'') 0 0
        in if vk = 0 then None
           else
             let rawData = PutUint16 (ucast vk) @ replicate 8 0
             in Some (NewInputSignature iter now SourceKeyboard rawData mods))"

text \<open>A part that is neither a modifier name nor a key of the table.\<close>

definition unknownPart :: "string \<Rightarrow> bool" where
  "unknownPart part \<longleftrightarrow>
     part \<noteq> ''CTRL'' \<and> part \<noteq> ''CONTROL'' \<and> part \<noteq> ''ALT'' \<and> part \<noteq> ''SHIFT''
     \<and> part \<noteq> ''WIN'' \<and> map_of keyMap part = None"

section \<open>Self-event suppression\<close>

lemma ring_scan_set: "ring_scan ring seq \<longleftrightarrow> seq \<in> set ring"
  by (induction ring) auto

lemma isSelfEvent_set: "isSelfEvent c seq \<longleftrightarrow> seq \<in> set (selfEventsRing c)"
  by (simp add: isSelfEvent_def ring_scan_set)

lemma ring_ok_NewController: "ring_ok (NewController cf)"
  by (simp add: ring_ok_def NewController_def Let_def ringBufferSize_def)

lemma go_rem_nonneg: "0 \<le> a \<Longrightarrow> 0 < b \<Longrightarrow> go_rem a b = a mod b"
  by (cases "a = 0") (simp_all add: go_rem_def)

lemma addSelfEventLocked_ok:
  assumes "ring_ok c"
  shows "\<exists>c1. addSelfEventLocked c seq = Inr c1 \<and> ring_ok c1
           \<and> selfEventsRing c1 = (selfEventsRing c)[nat (ringIndex c) := seq]
           \<and> ringIndex c1 = (ringIndex c + 1) mod ringSize c
           \<and> queue c1 = queue c \<and> history c1 = history c
           \<and> queueEnabled c1 = queueEnabled c \<and> orderStrategy c1 = orderStrategy c
           \<and> snapshotOnEnable c1 = snapshotOnEnable c \<and> ringSize c1 = ringSize c
           \<and> cfg c1 = cfg c"
proof -
  from assms have size: "0 < ringSize c"
    unfolding ring_ok_def by linarith
  have rem: "go_rem (ringIndex c + 1) (ringSize c) = (ringIndex c + 1) mod ringSize c"
    using assms size unfolding ring_ok_def by (intro go_rem_nonneg) linarith+
  have bound: "(ringIndex c + 1) mod ringSize c < ringSize c" "0 \<le> (ringIndex c + 1) mod ringSize c"
    using size by simp_all
  show ?thesis
    using assms size rem bound
    by (simp add: addSelfEventLocked_def ring_ok_def Let_def)
qed

lemma addSelfEventLocked_contains:
  assumes "addSelfEventLocked c seq = Inr c1"
  shows "seq \<in> set (selfEventsRing c1)"
proof -
  from assms have idx: "0 \<le> ringIndex c" "nat (ringIndex c) < length (selfEventsRing c)"
    and ring: "selfEventsRing c1 = (selfEventsRing c)[nat (ringIndex c) := seq]"
    by (auto simp: addSelfEventLocked_def Let_def split: if_splits)
  from idx(2) have "(selfEventsRing c)[nat (ringIndex c) := seq] ! nat (ringIndex c) = seq"
    by simp
  with idx(2) ring show ?thesis
    by (metis length_list_update nth_mem)
qed

text \<open>
  C10: on a freshly constructed controller the eight slots of the ring hold 0, so
  \<open>isSelfEvent\<close> is true of 0 and false of every other sequence number, and an
  \<open>OnClipboardUpdate\<close> that observes the sequence number 0 returns with the controller,
  and so its history and its queue, unchanged.
\<close>

theorem fresh_controller_suppresses_zero:
  "isSelfEvent (NewController cf) 0
   \<and> (\<forall>n. n \<noteq> 0 \<longrightarrow> \<not> isSelfEvent (NewController cf) n)
   \<and> selfEventsRing (NewController cf) = [0, 0, 0, 0, 0, 0, 0, 0]
   \<and> fst (OnClipboardUpdate (NewController cf) 0 rd) = NewController cf
   \<and> history (fst (OnClipboardUpdate (NewController cf) 0 rd)) = []
   \<and> queue (fst (OnClipboardUpdate (NewController cf) 0 rd)) = []"
proof -
  have ring: "selfEventsRing (NewController cf) = [0, 0, 0, 0, 0, 0, 0, 0]"
    by (simp add: NewController_def Let_def ringBufferSize_def eval_nat_numeral)
  have self0: "isSelfEvent (NewController cf) 0"
    by (simp add: isSelfEvent_def ring)
  have others: "\<forall>n. n \<noteq> 0 \<longrightarrow> \<not> isSelfEvent (NewController cf) n"
    by (simp add: isSelfEvent_set ring)
  have same: "fst (OnClipboardUpdate (NewController cf) 0 rd) = NewController cf"
    using self0 by (simp add: OnClipboardUpdate_def)
  have empty: "history (NewController cf) = []" "queue (NewController cf) = []"
    by (simp_all add: NewController_def Let_def)
  from ring self0 others same empty show ?thesis by simp
qed

theorem fresh_controller_suppresses_zero_witness:
  "(5 :: 32 word) \<noteq> 0
   \<and> \<not> isSelfEvent (NewController \<lparr>Queue_DefaultOrder = ''FIFO'', Clipboard_RestoreDelayMs = 250\<rparr>) 5
   \<and> isSelfEvent (NewController \<lparr>Queue_DefaultOrder = ''FIFO'', Clipboard_RestoreDelayMs = 250\<rparr>) 0"
  using fresh_controller_suppresses_zero
    [of "\<lparr>Queue_DefaultOrder = ''FIFO'', Clipboard_RestoreDelayMs = 250\<rparr>"]
  by simp

text \<open>
  C1: where the ring contains the sequence number \<open>n\<close> that \<open>OnClipboardUpdate\<close>
  observes, the call returns the controller as it was, history and queue unchanged; and
  after \<open>addSelfEvent\<close> has recorded \<open>n\<close>, the ring contains \<open>n\<close>, so that an update
  reporting \<open>n\<close> is suppressed. On a well-formed ring \<open>addSelfEvent\<close> does return.
\<close>

theorem self_event_suppression:
  "(n \<in> set (selfEventsRing c) \<longrightarrow>
      OnClipboardUpdate c n rd = (c, [Lock, Unlock])
      \<and> history (fst (OnClipboardUpdate c n rd)) = history c
      \<and> queue (fst (OnClipboardUpdate c n rd)) = queue c)
   \<and> (\<forall>c1 ev. addSelfEvent c n = Inr (c1, ev) \<longrightarrow>
         n \<in> set (selfEventsRing c1) \<and> isSelfEvent c1 n
         \<and> OnClipboardUpdate c1 n rd = (c1, [Lock, Unlock]))
   \<and> (ring_ok c \<longrightarrow> (\<exists>c1. addSelfEvent c n = Inr (c1, [Lock, Unlock])))"
proof (intro conjI allI impI)
  assume "n \<in> set (selfEventsRing c)"
  then have self: "isSelfEvent c n" by (simp add: isSelfEvent_set)
  then show upd: "OnClipboardUpdate c n rd = (c, [Lock, Unlock])"
    by (simp add: OnClipboardUpdate_def)
  from upd show "history (fst (OnClipboardUpdate c n rd)) = history c" by simp
  from upd show "queue (fst (OnClipboardUpdate c n rd)) = queue c" by simp
next
  fix c1 ev
  assume add: "addSelfEvent c n = Inr (c1, ev)"
  then have "addSelfEventLocked c n = Inr c1"
    by (auto simp: addSelfEvent_def split: sum.splits)
  then show mem: "n \<in> set (selfEventsRing c1)"
    by (rule addSelfEventLocked_contains)
  then show self: "isSelfEvent c1 n" by (simp add: isSelfEvent_set)
  then show "OnClipboardUpdate c1 n rd = (c1, [Lock, Unlock])"
    by (simp add: OnClipboardUpdate_def)
next
  assume "ring_ok c"
  from addSelfEventLocked_ok [OF this, of n]
  show "\<exists>c1. addSelfEvent c n = Inr (c1, [Lock, Unlock])"
    by (auto simp: addSelfEvent_def)
qed

theorem self_event_suppression_witness:
  "ring_ok (NewController defaultConfig)
   \<and> (\<exists>c1. addSelfEvent (NewController defaultConfig) 7 = Inr (c1, [Lock, Unlock])
          \<and> 7 \<in> set (selfEventsRing c1)
          \<and> OnClipboardUpdate c1 7 (textItem ''a'' ''copied'' 5, None) = (c1, [Lock, Unlock]))
   \<and> 0 \<in> set (selfEventsRing (NewController defaultConfig))
   \<and> OnClipboardUpdate (NewController defaultConfig) 0 (textItem ''a'' ''copied'' 5, None)
       = (NewController defaultConfig, [Lock, Unlock])"
proof -
  let ?c = "NewController defaultConfig"
  let ?rd = "(textItem ''a'' ''copied'' 5, None)"
  have ok: "ring_ok ?c" by (rule ring_ok_NewController)
  from self_event_suppression [of 7 ?c ?rd] ok obtain c1 where
    add: "addSelfEvent ?c 7 = Inr (c1, [Lock, Unlock])" by blast
  with self_event_suppression [of 7 ?c ?rd] have
    rec: "7 \<in> set (selfEventsRing c1)" "OnClipboardUpdate c1 7 ?rd = (c1, [Lock, Unlock])"
    by blast+
  have zero: "0 \<in> set (selfEventsRing ?c)"
    by (simp add: NewController_def Let_def ringBufferSize_def)
  with self_event_suppression [of 0 ?c ?rd] have
    "OnClipboardUpdate ?c 0 ?rd = (?c, [Lock, Unlock])" by blast
  with ok add rec zero show ?thesis by blast
qed

section \<open>Order of dequeueing\<close>

lemma addSelfEvent_ok:
  assumes "ring_ok c"
  shows "\<exists>c1. addSelfEvent c seq = Inr (c1, [Lock, Unlock]) \<and> ring_ok c1
           \<and> queue c1 = queue c \<and> history c1 = history c
           \<and> queueEnabled c1 = queueEnabled c \<and> orderStrategy c1 = orderStrategy c"
  using addSelfEventLocked_ok [OF assms, of seq] by (auto simp: addSelfEvent_def)

lemma ring_ok_queue_update: "ring_ok (c\<lparr>queue := q\<rparr>) = ring_ok c"
  by (simp add: ring_ok_def)

lemma PasteNext_dequeues:
  assumes ok: "ring_ok c" and en: "queueEnabled c" and ne: "queue c \<noteq> []"
  shows "\<exists>c1 ev. PasteNext c io =
            Inr (c1, ev, Some (if orderStrategy c = ''LIFO'' then last (queue c) else hd (queue c)))
          \<and> queue c1 = (if orderStrategy c = ''LIFO'' then butlast (queue c) else tl (queue c))
          \<and> ring_ok c1 \<and> queueEnabled c1 \<and> orderStrategy c1 = orderStrategy c
          \<and> history c1 = history c"
proof -
  define item where "item = (if orderStrategy c = ''LIFO'' then last (queue c) else hd (queue c))"
  define cq where
    "cq = c\<lparr>queue := (if orderStrategy c = ''LIFO'' then butlast (queue c) else tl (queue c))\<rparr>"
  have sel: "(if orderStrategy c = ''LIFO''
               then (queue c ! (length (queue c) - 1),
                     c\<lparr>queue := take (length (queue c) - 1) (queue c)\<rparr>)
               else (queue c ! 0, c\<lparr>queue := drop 1 (queue c)\<rparr>)) = (item, cq)"
    using ne by (simp add: item_def cq_def last_conv_nth hd_conv_nth butlast_conv_take drop_Suc)
  have okq: "ring_ok cq" using ok by (simp add: cq_def ring_ok_queue_update)
  have fq: "queueEnabled cq" "orderStrategy cq = orderStrategy c" "history cq = history c"
    using en by (simp_all add: cq_def)
  from addSelfEvent_ok [OF okq, of "io_seq_written io"] obtain c2 where
    c2: "addSelfEvent cq (io_seq_written io) = Inr (c2, [Lock, Unlock])" "ring_ok c2"
        "queue c2 = queue cq" "history c2 = history cq" "queueEnabled c2 = queueEnabled cq"
        "orderStrategy c2 = orderStrategy cq"
    by blast
  from addSelfEvent_ok [OF c2(2), of "io_seq_restored io"] obtain c3 where
    c3: "addSelfEvent c2 (io_seq_restored io) = Inr (c3, [Lock, Unlock])" "ring_ok c3"
        "queue c3 = queue c2" "history c3 = history c2" "queueEnabled c3 = queueEnabled c2"
        "orderStrategy c3 = orderStrategy c2"
    by blast
  have q: "queue cq = (if orderStrategy c = ''LIFO'' then butlast (queue c) else tl (queue c))"
    by (simp add: cq_def)
  obtain before err where rb: "io_before io = (before, err)" by (cases "io_before io")
  show ?thesis
    unfolding PasteNext_def item_def [symmetric]
    using en ne okq fq c2 c3 q rb
    by (simp only: sel Let_def split_conv then_do_def)
       (auto split: option.splits simp: item_def)
qed

text \<open>
  C6: from a controller with the queue enabled and the queue \<open>[A, B, C]\<close>, three
  successive \<open>PasteNext\<close> calls dequeue \<open>C\<close>, \<open>B\<close>, \<open>A\<close> under \<open>LIFO\<close>, leaving
  \<open>[A, B]\<close>, \<open>[A]\<close>, \<open>[]\<close>, and \<open>A\<close>, \<open>B\<close>, \<open>C\<close> under \<open>FIFO\<close>, leaving \<open>[B, C]\<close>,
  \<open>[C]\<close>, \<open>[]\<close>, whatever the clipboard backend returns to each call.
\<close>

theorem PasteNext_order:
  assumes "ring_ok c" and "queueEnabled c" and "queue c = [A, B, C]"
  shows "(orderStrategy c = ''LIFO'' \<longrightarrow>
            (\<exists>c1 e1 c2 e2 c3 e3.
               PasteNext c io1 = Inr (c1, e1, Some C) \<and> queue c1 = [A, B]
             \<and> PasteNext c1 io2 = Inr (c2, e2, Some B) \<and> queue c2 = [A]
             \<and> PasteNext c2 io3 = Inr (c3, e3, Some A) \<and> queue c3 = []))
       \<and> (orderStrategy c = ''FIFO'' \<longrightarrow>
            (\<exists>c1 e1 c2 e2 c3 e3.
               PasteNext c io1 = Inr (c1, e1, Some A) \<and> queue c1 = [B, C]
             \<and> PasteNext c1 io2 = Inr (c2, e2, Some B) \<and> queue c2 = [C]
             \<and> PasteNext c2 io3 = Inr (c3, e3, Some C) \<and> queue c3 = []))"
proof (intro conjI impI)
  assume lifo: "orderStrategy c = ''LIFO''"
  from PasteNext_dequeues [of c io1] assms lifo obtain c1 e1 where
    s1: "PasteNext c io1 = Inr (c1, e1, Some C)" "queue c1 = [A, B]" "ring_ok c1"
        "queueEnabled c1" "orderStrategy c1 = ''LIFO''"
    by auto
  from PasteNext_dequeues [of c1 io2] s1 obtain c2 e2 where
    s2: "PasteNext c1 io2 = Inr (c2, e2, Some B)" "queue c2 = [A]" "ring_ok c2"
        "queueEnabled c2" "orderStrategy c2 = ''LIFO''"
    by auto
  from PasteNext_dequeues [of c2 io3] s2 obtain c3 e3 where
    s3: "PasteNext c2 io3 = Inr (c3, e3, Some A)" "queue c3 = []"
    by auto
  from s1 s2 s3 show "\<exists>c1 e1 c2 e2 c3 e3.
               PasteNext c io1 = Inr (c1, e1, Some C) \<and> queue c1 = [A, B]
             \<and> PasteNext c1 io2 = Inr (c2, e2, Some B) \<and> queue c2 = [A]
             \<and> PasteNext c2 io3 = Inr (c3, e3, Some A) \<and> queue c3 = []"
    by blast
next
  assume fifo: "orderStrategy c = ''FIFO''"
  from PasteNext_dequeues [of c io1] assms fifo obtain c1 e1 where
    s1: "PasteNext c io1 = Inr (c1, e1, Some A)" "queue c1 = [B, C]" "ring_ok c1"
        "queueEnabled c1" "orderStrategy c1 = ''FIFO''"
    by auto
  from PasteNext_dequeues [of c1 io2] s1 obtain c2 e2 where
    s2: "PasteNext c1 io2 = Inr (c2, e2, Some B)" "queue c2 = [C]" "ring_ok c2"
        "queueEnabled c2" "orderStrategy c2 = ''FIFO''"
    by auto
  from PasteNext_dequeues [of c2 io3] s2 obtain c3 e3 where
    s3: "PasteNext c2 io3 = Inr (c3, e3, Some C)" "queue c3 = []"
    by auto
  from s1 s2 s3 show "\<exists>c1 e1 c2 e2 c3 e3.
               PasteNext c io1 = Inr (c1, e1, Some A) \<and> queue c1 = [B, C]
             \<and> PasteNext c1 io2 = Inr (c2, e2, Some B) \<and> queue c2 = [C]
             \<and> PasteNext c2 io3 = Inr (c3, e3, Some C) \<and> queue c3 = []"
    by blast
qed

theorem PasteNext_order_witness:
  "(\<exists>c1 e1 c2 e2 c3 e3.
      PasteNext (NewController defaultConfig
                   \<lparr>queueEnabled := True,
                    queue := [textItem ''1'' ''A'' 1, textItem ''2'' ''B'' 2, textItem ''3'' ''C'' 3]\<rparr>)
        pasteOk = Inr (c1, e1, Some (textItem ''3'' ''C'' 3))
    \<and> queue c1 = [textItem ''1'' ''A'' 1, textItem ''2'' ''B'' 2]
    \<and> PasteNext c1 pasteOk = Inr (c2, e2, Some (textItem ''2'' ''B'' 2))
    \<and> queue c2 = [textItem ''1'' ''A'' 1]
    \<and> PasteNext c2 pasteOk = Inr (c3, e3, Some (textItem ''1'' ''A'' 1)) \<and> queue c3 = [])
   \<and> (\<exists>c1 e1 c2 e2 c3 e3.
      PasteNext (NewController defaultConfig
                   \<lparr>queueEnabled := True, orderStrategy := ''FIFO'',
                    queue := [textItem ''1'' ''A'' 1, textItem ''2'' ''B'' 2, textItem ''3'' ''C'' 3]\<rparr>)
        pasteOk = Inr (c1, e1, Some (textItem ''1'' ''A'' 1))
    \<and> queue c1 = [textItem ''2'' ''B'' 2, textItem ''3'' ''C'' 3]
    \<and> PasteNext c1 pasteOk = Inr (c2, e2, Some (textItem ''2'' ''B'' 2))
    \<and> queue c2 = [textItem ''3'' ''C'' 3]
    \<and> PasteNext c2 pasteOk = Inr (c3, e3, Some (textItem ''3'' ''C'' 3)) \<and> queue c3 = [])"
proof -
  let ?q = "[textItem ''1'' ''A'' 1, textItem ''2'' ''B'' 2, textItem ''3'' ''C'' 3]"
  let ?cl = "NewController defaultConfig \<lparr>queueEnabled := True, queue := ?q\<rparr>"
  let ?cf = "NewController defaultConfig
               \<lparr>queueEnabled := True, orderStrategy := ''FIFO'', queue := ?q\<rparr>"
  have l: "ring_ok ?cl" "queueEnabled ?cl" "queue ?cl = ?q" "orderStrategy ?cl = ''LIFO''"
    by (simp_all add: ring_ok_def NewController_def defaultConfig_def Let_def ringBufferSize_def)
  have f: "ring_ok ?cf" "queueEnabled ?cf" "queue ?cf = ?q" "orderStrategy ?cf = ''FIFO''"
    by (simp_all add: ring_ok_def NewController_def defaultConfig_def Let_def ringBufferSize_def)
  from PasteNext_order [OF l(1) l(2) l(3), of pasteOk pasteOk pasteOk] l(4)
       PasteNext_order [OF f(1) f(2) f(3), of pasteOk pasteOk pasteOk] f(4)
  show ?thesis by blast
qed

section \<open>The operations return and keep the ring well formed\<close>

lemma addSelfEventLocked_ring_ok:
  "ring_ok c \<Longrightarrow> addSelfEventLocked c n = Inr c1 \<Longrightarrow> ring_ok c1"
  using addSelfEventLocked_ok [of c n] by auto

lemma addSelfEvent_ring_ok:
  "ring_ok c \<Longrightarrow> addSelfEvent c n = Inr (c1, ev) \<Longrightarrow> ring_ok c1"
  using addSelfEvent_ok [of c n] by auto

lemma ring_ok_updates:
  "ring_ok (c\<lparr>queue := q\<rparr>) = ring_ok c"
  "ring_ok (c\<lparr>history := h\<rparr>) = ring_ok c"
  "ring_ok (c\<lparr>queueEnabled := b\<rparr>) = ring_ok c"
  "ring_ok (c\<lparr>snapshotOnEnable := s\<rparr>) = ring_ok c"
  "ring_ok (c\<lparr>orderStrategy := o1\<rparr>) = ring_ok c"
  by (simp_all add: ring_ok_def)

lemma ToggleQueue_ring_ok:
  assumes "ring_ok c"
  shows "\<exists>c1 ev. ToggleQueue c io = Inr (c1, ev) \<and> ring_ok c1"
proof (cases "queueEnabled c")
  case False
  with assms show ?thesis
    by (simp add: ToggleQueue_def Let_def ring_ok_updates split: prod.splits)
next
  case True
  show ?thesis
  proof (cases "snapshotOnEnable c")
    case None
    with True assms show ?thesis
      by (simp add: ToggleQueue_def Let_def ring_ok_updates)
  next
    case (Some snap)
    let ?c3 = "c\<lparr>queueEnabled := False, queue := [], snapshotOnEnable := None\<rparr>"
    have "ring_ok ?c3" using assms by (simp add: ring_ok_updates)
    from addSelfEvent_ok [OF this, of "tg_seq io"] obtain c4 where
      "addSelfEvent ?c3 (tg_seq io) = Inr (c4, [Lock, Unlock])" "ring_ok c4" by blast
    with True Some show ?thesis
      by (simp add: ToggleQueue_def Let_def then_do_def)
  qed
qed

lemma OnClipboardUpdate_ring_ok:
  "ring_ok c \<Longrightarrow> ring_ok (fst (OnClipboardUpdate c seq rd))"
  by (auto simp: OnClipboardUpdate_def Let_def ring_ok_updates split: prod.splits option.splits)

lemma PasteNext_ring_ok:
  assumes "ring_ok c"
  shows "\<exists>c1 ev item. PasteNext c io = Inr (c1, ev, item) \<and> ring_ok c1"
proof (cases "queueEnabled c \<and> queue c \<noteq> []")
  case True
  with PasteNext_dequeues [of c io] assms show ?thesis by blast
next
  case False
  with assms show ?thesis by (auto simp: PasteNext_def)
qed

lemma CopyItem_ring_ok:
  assumes "ring_ok c"
  shows "\<exists>c1 ev err. CopyItem c ident w n = Inr (c1, ev, err) \<and> ring_ok c1"
  using assms addSelfEventLocked_ok [OF assms, of n]
  by (auto simp: CopyItem_def then_do_def split: option.splits)

lemma ExecuteMacro_ring_ok:
  assumes "ring_ok c"
  shows "\<exists>c1 ev err. ExecuteMacro c macro io = Inr (c1, ev, err) \<and> ring_ok c1"
proof -
  from addSelfEvent_ok [OF assms, of "mio_seq_written io"] obtain c1 where
    c1: "addSelfEvent c (mio_seq_written io) = Inr (c1, [Lock, Unlock])" "ring_ok c1" by blast
  from addSelfEvent_ok [OF c1(2), of "mio_seq_restored io"] obtain c2 where
    c2: "addSelfEvent c1 (mio_seq_restored io) = Inr (c2, [Lock, Unlock])" "ring_ok c2" by blast
  obtain old err where rb: "mio_before io = (old, err)" by (cases "mio_before io")
  show ?thesis
    using assms c1 c2 rb
    by (auto simp: ExecuteMacro_def Let_def then_do_def split: option.splits)
qed

lemma step_total:
  assumes "ring_ok c"
  shows "\<exists>c1 ev. step c oper = Inr (c1, ev) \<and> ring_ok c1"
proof (cases oper)
  case (OpToggleQueue io)
  with ToggleQueue_ring_ok [OF assms, of io] show ?thesis by simp
next
  case (OpOnClipboardUpdate seq rd)
  with OnClipboardUpdate_ring_ok [OF assms, of seq rd] show ?thesis
    by (cases "OnClipboardUpdate c seq rd") simp
next
  case (OpPasteNext io)
  with PasteNext_ring_ok [OF assms, of io] show ?thesis by (auto simp: then_do_def)
next
  case OpClearQueue
  with assms show ?thesis by (simp add: ClearQueue_def Let_def ring_ok_updates)
next
  case OpToggleOrder
  with assms show ?thesis by (simp add: ToggleOrder_def Let_def ring_ok_updates)
next
  case (OpSetOrderStrategy order)
  with assms show ?thesis by (simp add: SetOrderStrategy_def Let_def ring_ok_updates)
next
  case (OpRemoveItem index)
  with assms show ?thesis by (simp add: RemoveItem_def Let_def ring_ok_updates)
next
  case (OpCopyItem i w n)
  with CopyItem_ring_ok [OF assms, of i w n] show ?thesis by (auto simp: then_do_def)
next
  case (OpExecuteMacro m io)
  with ExecuteMacro_ring_ok [OF assms, of m io] show ?thesis by (auto simp: then_do_def)
next
  case (OpAddSelfEvent n)
  with addSelfEvent_ok [OF assms, of n] show ?thesis by auto
qed

lemma reachable_ring_ok: "reachable c \<Longrightarrow> ring_ok c"
proof (induction rule: reachable.induct)
  case (reachable_new cf)
  show ?case by (rule ring_ok_NewController)
next
  case (reachable_step c oper c1 ev)
  from step_total [OF reachable_step.IH, of oper] reachable_step.hyps(2)
  show ?case by auto
qed

section \<open>The history bound\<close>


lemma addSelfEventLocked_keeps:
  "addSelfEventLocked c n = Inr c1 \<Longrightarrow>
     history c1 = history c \<and> queue c1 = queue c \<and> queueEnabled c1 = queueEnabled c
     \<and> orderStrategy c1 = orderStrategy c"
  by (auto simp: addSelfEventLocked_def Let_def split: if_splits)

lemma addSelfEvent_keeps:
  "addSelfEvent c n = Inr (c1, ev) \<Longrightarrow>
     history c1 = history c \<and> queue c1 = queue c \<and> queueEnabled c1 = queueEnabled c
     \<and> orderStrategy c1 = orderStrategy c"
  by (auto simp: addSelfEvent_def split: sum.splits dest: addSelfEventLocked_keeps)

lemma ToggleQueue_history: "ToggleQueue c io = Inr (c1, ev) \<Longrightarrow> history c1 = history c"
  by (auto simp: ToggleQueue_def Let_def then_do_def
           split: if_splits prod.splits option.splits sum.splits dest!: addSelfEvent_keeps)

lemma PasteNext_history: "PasteNext c io = Inr (c1, ev, item) \<Longrightarrow> history c1 = history c"
  by (auto simp: PasteNext_def Let_def then_do_def
           split: if_splits prod.splits option.splits sum.splits dest!: addSelfEvent_keeps)

lemma CopyItem_history: "CopyItem c i w n = Inr (c1, ev, err) \<Longrightarrow> history c1 = history c"
  by (auto simp: CopyItem_def then_do_def
           split: option.splits sum.splits dest!: addSelfEventLocked_keeps)

lemma ExecuteMacro_history: "ExecuteMacro c m io = Inr (c1, ev, err) \<Longrightarrow> history c1 = history c"
  by (auto simp: ExecuteMacro_def Let_def then_do_def
           split: if_splits prod.splits option.splits sum.splits dest!: addSelfEvent_keeps)

lemma OnClipboardUpdate_history:
  "history (fst (OnClipboardUpdate c seq rd)) =
     (case rd of
        (content, None) \<Rightarrow>
          if isSelfEvent c seq \<or> cType content = Empty \<or> duplicateOfLast (history c) content
          then history c
          else (if 50 \<le> length (history c) then drop 1 (history c) else history c) @ [content]
      | (content, Some err) \<Rightarrow> history c)"
  by (auto simp: OnClipboardUpdate_def Let_def split: prod.splits option.splits)

lemma OnClipboardUpdate_bound:
  "length (history c) \<le> 50 \<Longrightarrow> length (history (fst (OnClipboardUpdate c seq rd))) \<le> 50"
  by (auto simp: OnClipboardUpdate_history split: prod.splits option.splits)

lemma step_history_bound:
  assumes "length (history c) \<le> 50" and "step c oper = Inr (c1, ev)"
  shows "length (history c1) \<le> 50"
proof (cases oper)
  case (OpToggleQueue io)
  with assms show ?thesis by (auto dest: ToggleQueue_history)
next
  case (OpOnClipboardUpdate seq rd)
  with assms OnClipboardUpdate_bound [of c seq rd] show ?thesis by auto
next
  case (OpPasteNext io)
  with assms show ?thesis
    by (auto simp: then_do_def split: sum.splits dest: PasteNext_history)
next
  case OpClearQueue
  with assms show ?thesis by (auto simp: ClearQueue_def Let_def split: if_splits)
next
  case OpToggleOrder
  with assms show ?thesis by (auto simp: ToggleOrder_def Let_def split: if_splits)
next
  case (OpSetOrderStrategy order)
  with assms show ?thesis by (auto simp: SetOrderStrategy_def Let_def split: if_splits)
next
  case (OpRemoveItem index)
  with assms show ?thesis by (auto simp: RemoveItem_def Let_def split: if_splits)
next
  case (OpCopyItem i w n)
  with assms show ?thesis
    by (auto simp: then_do_def split: sum.splits dest: CopyItem_history)
next
  case (OpExecuteMacro m io)
  with assms show ?thesis
    by (auto simp: then_do_def split: sum.splits dest: ExecuteMacro_history)
next
  case (OpAddSelfEvent n)
  with assms show ?thesis by (auto dest: addSelfEvent_keeps)
qed

lemma reachable_history_bound: "reachable c \<Longrightarrow> length (history c) \<le> 50"
proof (induction rule: reachable.induct)
  case (reachable_new cf)
  show ?case by (simp add: NewController_def Let_def)
next
  case (reachable_step c oper c1 ev)
  then show ?case by (blast intro: step_history_bound)
qed

lemma updates_bound:
  "length (history c) \<le> 50 \<Longrightarrow> length (history (updates c calls)) \<le> 50"
proof (induction calls arbitrary: c)
  case Nil
  then show ?case by simp
next
  case (Cons call calls)
  obtain seq rd where call: "call = (seq, rd)" by (cases call)
  from Cons.prems have "length (history (fst (OnClipboardUpdate c seq rd))) \<le> 50"
    by (rule OnClipboardUpdate_bound)
  then have "length (history (updates (fst (OnClipboardUpdate c seq rd)) calls)) \<le> 50"
    by (rule Cons.IH)
  with call show ?case by simp
qed

lemma OnClipboardUpdate_history_accepts:
  "history (fst (OnClipboardUpdate c seq rd)) =
     (if accepts c seq rd
      then (if 50 \<le> length (history c) then drop 1 (history c) else history c) @ [fst rd]
      else history c)"
  by (cases rd) (auto simp: OnClipboardUpdate_history accepts_def split: option.splits)

lemma mostRecent50_short: "length xs \<le> 50 \<Longrightarrow> mostRecent50 xs = xs"
  by (simp add: mostRecent50_def)

lemma mostRecent50_drop_head:
  assumes "length h = 50"
  shows "mostRecent50 (drop 1 h @ x # ys) = mostRecent50 (h @ x # ys)"
proof -
  from assms obtain a t where h: "h = a # t" by (cases h) auto
  with assms have t: "length t = 49" by simp
  show ?thesis by (simp add: mostRecent50_def h t)
qed

lemma updates_history:
  "length (history c) \<le> 50 \<Longrightarrow>
     history (updates c calls) = mostRecent50 (history c @ appended c calls)"
proof (induction calls arbitrary: c)
  case Nil
  then show ?case by (simp add: mostRecent50_short)
next
  case (Cons call calls)
  obtain seq rd where call: "call = (seq, rd)" by (cases call)
  let ?c1 = "fst (OnClipboardUpdate c seq rd)"
  have b1: "length (history ?c1) \<le> 50" using Cons.prems by (rule OnClipboardUpdate_bound)
  have ih: "history (updates ?c1 calls) = mostRecent50 (history ?c1 @ appended ?c1 calls)"
    using b1 by (rule Cons.IH)
  show ?case
  proof (cases "accepts c seq rd")
    case False
    then have "history ?c1 = history c" by (simp add: OnClipboardUpdate_history_accepts)
    with ih call False show ?thesis by simp
  next
    case True
    show ?thesis
    proof (cases "length (history c) = 50")
      case full: True
      then have "history ?c1 = drop 1 (history c) @ [fst rd]"
        using True by (simp add: OnClipboardUpdate_history_accepts)
      with ih have "history (updates ?c1 calls)
                      = mostRecent50 (drop 1 (history c) @ fst rd # appended ?c1 calls)"
        by simp
      also have "\<dots> = mostRecent50 (history c @ fst rd # appended ?c1 calls)"
        using full by (rule mostRecent50_drop_head)
      finally show ?thesis using call True by simp
    next
      case False
      with Cons.prems have "length (history c) < 50" by simp
      then have "history ?c1 = history c @ [fst rd]"
        using True by (simp add: OnClipboardUpdate_history_accepts)
      with ih call True show ?thesis by simp
    qed
  qed
qed

lemma reachable_updates: "reachable c \<Longrightarrow> reachable (updates c calls)"
proof (induction calls arbitrary: c)
  case Nil
  then show ?case by simp
next
  case (Cons call calls)
  obtain seq rd where call: "call = (seq, rd)" by (cases call)
  have "step c (OpOnClipboardUpdate seq rd)
          = Inr (fst (OnClipboardUpdate c seq rd), snd (OnClipboardUpdate c seq rd))"
    by simp
  with Cons.prems have "reachable (fst (OnClipboardUpdate c seq rd))"
    by (rule reachable_step)
  then have "reachable (updates (fst (OnClipboardUpdate c seq rd)) calls)" by (rule Cons.IH)
  with call show ?case by simp
qed

text \<open>
  C7: no operation of the controller makes the history longer than 50 entries: the bound
  holds in every state that a run of operations reaches from a new controller, every
  operation preserves it, and so does every run of \<open>OnClipboardUpdate\<close> calls. An update
  that is appended goes to the end of the history, and the head is dropped before that
  exactly when the history already holds 50 entries; an update that is not appended leaves
  the history as it is. So after every run of updates the history is the last 50 of the
  entries it held before followed by the appended contents in the order of the calls: the
  entries evicted are the oldest, and the most recent 50 are retained in the order of
  insertion.
\<close>

theorem history_bounded:
  "(reachable c \<longrightarrow> length (history c) \<le> 50)
   \<and> (length (history c) \<le> 50 \<longrightarrow>
        (\<forall>oper c1 ev. step c oper = Inr (c1, ev) \<longrightarrow> length (history c1) \<le> 50)
        \<and> length (history (updates c calls)) \<le> 50)
   \<and> (length (history c) = 50 \<and> \<not> isSelfEvent c seq \<and> cType content \<noteq> Empty
        \<and> \<not> duplicateOfLast (history c) content \<longrightarrow>
        history (fst (OnClipboardUpdate c seq (content, None))) = tl (history c) @ [content]
        \<and> length (history (fst (OnClipboardUpdate c seq (content, None)))) = 50)
   \<and> history (fst (OnClipboardUpdate c seq rd)) =
        (if accepts c seq rd
         then (if 50 \<le> length (history c) then drop 1 (history c) else history c) @ [fst rd]
         else history c)
   \<and> (length (history c) \<le> 50 \<longrightarrow>
        history (updates c calls) = mostRecent50 (history c @ appended c calls))
   \<and> history (updates (NewController cf) calls) = mostRecent50 (appended (NewController cf) calls)"
proof (intro conjI impI allI)
  assume "reachable c" then show "length (history c) \<le> 50" by (rule reachable_history_bound)
next
  fix oper c1 ev
  assume "length (history c) \<le> 50" "step c oper = Inr (c1, ev)"
  then show "length (history c1) \<le> 50" by (rule step_history_bound)
next
  assume "length (history c) \<le> 50"
  then show "length (history (updates c calls)) \<le> 50" by (rule updates_bound)
next
  assume a: "length (history c) = 50 \<and> \<not> isSelfEvent c seq \<and> cType content \<noteq> Empty
        \<and> \<not> duplicateOfLast (history c) content"
  then show h: "history (fst (OnClipboardUpdate c seq (content, None))) = tl (history c) @ [content]"
    by (simp add: OnClipboardUpdate_history drop_Suc)
  from a h show "length (history (fst (OnClipboardUpdate c seq (content, None)))) = 50"
    by simp
next
  show "history (fst (OnClipboardUpdate c seq rd)) =
        (if accepts c seq rd
         then (if 50 \<le> length (history c) then drop 1 (history c) else history c) @ [fst rd]
         else history c)"
    by (rule OnClipboardUpdate_history_accepts)
next
  assume "length (history c) \<le> 50"
  then show "history (updates c calls) = mostRecent50 (history c @ appended c calls)"
    by (rule updates_history)
next
  have "length (history (NewController cf)) \<le> 50" "history (NewController cf) = []"
    by (simp_all add: NewController_def Let_def)
  with updates_history [of "NewController cf" calls]
  show "history (updates (NewController cf) calls) = mostRecent50 (appended (NewController cf) calls)"
    by simp
qed

theorem history_bounded_witness:
  "reachable (updates (NewController defaultConfig) (ticks 50))
   \<and> history (updates (NewController defaultConfig) (ticks 50)) = map tick [0..<50]
   \<and> length (history (updates (NewController defaultConfig) (ticks 50))) = 50
   \<and> step (updates (NewController defaultConfig) (ticks 50)) OpToggleOrder
       = Inr (updates (NewController defaultConfig) (ticks 50) \<lparr>orderStrategy := ''FIFO''\<rparr>,
              [Lock, StateChange False 0 ''FIFO'', Unlock])
   \<and> length (history (updates (NewController defaultConfig) (ticks 50)
                         \<lparr>orderStrategy := ''FIFO''\<rparr>)) \<le> 50
   \<and> accepts (updates (NewController defaultConfig) (ticks 50)) 1 (tick 50, None)
   \<and> history (fst (OnClipboardUpdate (updates (NewController defaultConfig) (ticks 50)) 1
                     (tick 50, None)))
       = map tick [1..<51]
   \<and> appended (NewController defaultConfig) (ticks 51) = map tick [0..<51]
   \<and> history (updates (NewController defaultConfig) (ticks 51)) = map tick [1..<51]
   \<and> length (history (updates (NewController defaultConfig) (ticks 51))) \<le> 50"
proof -
  let ?new = "NewController defaultConfig"
  let ?c = "updates ?new (ticks 50)"
  have r: "reachable ?c" by (rule reachable_updates [OF reachable_new])
  have h50: "history ?c = map tick [0..<50]" by code_simp
  have l50: "length (history ?c) = 50" by (simp add: h50)
  have ord: "orderStrategy ?c = ''LIFO''" "queueEnabled ?c = False" "queue ?c = []"
    by code_simp+
  have st: "step ?c OpToggleOrder
              = Inr (?c\<lparr>orderStrategy := ''FIFO''\<rparr>, [Lock, StateChange False 0 ''FIFO'', Unlock])"
    by (simp add: ToggleOrder_def Let_def ord)
  have acc: "accepts ?c 1 (tick 50, None)" by code_simp
  then have hyp: "\<not> isSelfEvent ?c 1" "cType (tick 50) \<noteq> Empty"
    "\<not> duplicateOfLast (history ?c) (tick 50)"
    by (simp_all add: accepts_def)
  have shift: "tl (map tick [0..<50]) @ [tick 50] = map tick [1..<51]" by code_simp
  have app: "appended ?new (ticks 51) = map tick [0..<51]" by code_simp
  have recent: "mostRecent50 (map tick [0..<51]) = map tick [1..<51]"
    by (simp add: mostRecent50_def drop_map)
  note hb = history_bounded [where c = ?c and calls = "[]" and seq = 1 and content = "tick 50"
              and rd = "(tick 50, None)" and cf = defaultConfig]
  from hb r l50 st have a: "length (history (?c\<lparr>orderStrategy := ''FIFO''\<rparr>)) \<le> 50"
    by simp
  from hb l50 hyp h50 shift
  have b: "history (fst (OnClipboardUpdate ?c 1 (tick 50, None))) = map tick [1..<51]"
    by simp
  from history_bounded [where c = ?new and calls = "ticks 51" and seq = 1 and content = "tick 0"
         and rd = "(tick 0, None)" and cf = defaultConfig] app recent
  have c: "history (updates ?new (ticks 51)) = map tick [1..<51]" by simp
  then have d: "length (history (updates ?new (ticks 51))) \<le> 50" by simp
  from r h50 l50 st a acc b app c d show ?thesis by blast
qed

section \<open>The state-change callback and the lock\<close>

lemma addSelfEvent_events: "addSelfEvent c n = Inr (c1, ev) \<Longrightarrow> ev = [Lock, Unlock]"
  by (auto simp: addSelfEvent_def split: sum.splits)

text \<open>\<open>ToggleQueue\<close> releases the lock before it invokes the callback, on both branches.\<close>

lemma ToggleQueue_notifies_unlocked:
  "ToggleQueue c io = Inr (c1, ev) \<Longrightarrow> \<not> notifies_under_lock False ev"
  by (auto simp: ToggleQueue_def Let_def then_do_def
           split: if_splits prod.splits option.splits sum.splits dest!: addSelfEvent_events)

text \<open>The other operations invoke it before the lock is released.\<close>

lemma ClearQueue_under_lock: "notifies_under_lock False (snd (ClearQueue c))"
  by (simp add: ClearQueue_def Let_def)

lemma ToggleOrder_under_lock: "notifies_under_lock False (snd (ToggleOrder c))"
  by (simp add: ToggleOrder_def Let_def)

lemma SetOrderStrategy_under_lock:
  "order = ''LIFO'' \<or> order = ''FIFO'' \<Longrightarrow> orderStrategy c \<noteq> order \<Longrightarrow>
     notifies_under_lock False (fst (snd (SetOrderStrategy c order)))"
  by (auto simp: SetOrderStrategy_def Let_def)

lemma RemoveItem_under_lock:
  "0 \<le> index \<Longrightarrow> index < int (length (queue c)) \<Longrightarrow>
     notifies_under_lock False (fst (snd (RemoveItem c index)))"
  by (auto simp: RemoveItem_def Let_def)

lemma OnClipboardUpdate_under_lock:
  "queueEnabled c \<Longrightarrow> \<not> isSelfEvent c seq \<Longrightarrow> cType content \<noteq> Empty \<Longrightarrow>
   \<not> duplicateOfLast (history c) content \<Longrightarrow>
     notifies_under_lock False (snd (OnClipboardUpdate c seq (content, None)))"
  by (auto simp: OnClipboardUpdate_def Let_def)

lemma PasteNext_under_lock:
  "queueEnabled c \<Longrightarrow> queue c \<noteq> [] \<Longrightarrow> PasteNext c io = Inr (c1, ev, item) \<Longrightarrow>
     notifies_under_lock False ev"
  by (auto simp: PasteNext_def Let_def then_do_def
           split: if_splits prod.splits option.splits sum.splits)

text \<open>
  C8: the state-change callback is never invoked while the invoking operation holds the
  lock. \<open>ClearQueue\<close> on a new controller takes the lock, invokes the callback and only
  then releases the lock.
\<close>

theorem ClearQueue_callback_under_lock:
  "snd (ClearQueue (NewController defaultConfig)) = [Lock, StateChange False 0 ''LIFO'', Unlock]
   \<and> notifies_under_lock False (snd (ClearQueue (NewController defaultConfig)))"
  by (simp add: ClearQueue_def NewController_def defaultConfig_def Let_def)

section \<open>Deduplication\<close>




lemma time_Sub_lt_Second: "time_Sub t u < time_Second \<longleftrightarrow> t - u < time_Second"
  by (auto simp: time_Sub_def maxDuration_def minDuration_def time_Second_def Let_def)

lemma duplicateOfLast_iff:
  "duplicateOfLast hist k \<longleftrightarrow>
     hist \<noteq> [] \<and> cType k = cType (last hist)
     \<and> cTimestamp k - cTimestamp (last hist) < time_Second
     \<and> (if cType k = Text then cText k = cText (last hist)
         else cSizeBytes k = cSizeBytes (last hist))"
  by (auto simp: duplicateOfLast_def Let_def time_Sub_lt_Second)

lemma OnClipboardUpdate_ring:
  "selfEventsRing (fst (OnClipboardUpdate c seq rd)) = selfEventsRing c"
  by (auto simp: OnClipboardUpdate_def Let_def split: prod.splits option.splits)

text \<open>
  C5: two successive \<open>OnClipboardUpdate\<close> calls observe contents that are not suppressed,
  not empty, of the same type and with equal text (equal size when the type is not text).
  The history is not empty after the first call, and where the second content is less than
  one second later than its last entry, the second call leaves the history as it is. Where
  the first call's content is not itself a duplicate of the entry that was last before the
  pair, the first call appends it; then a second content less than one second later than
  the first adds nothing (one entry results from the pair), and a second content one second
  or more later than the first is appended after it (two entries result).
\<close>

theorem dedup_pair:
  assumes ns1: "\<not> isSelfEvent c n1" and ne1: "cType k1 \<noteq> Empty"
    and ns2: "\<not> isSelfEvent (fst (OnClipboardUpdate c n1 (k1, None))) n2"
    and ty: "cType k2 = cType k1"
    and mt: "if cType k1 = Text then cText k2 = cText k1 else cSizeBytes k2 = cSizeBytes k1"
  shows "history (fst (OnClipboardUpdate c n1 (k1, None))) \<noteq> []
     \<and> (cTimestamp k2 - cTimestamp (last (history (fst (OnClipboardUpdate c n1 (k1, None)))))
           < time_Second \<longrightarrow>
         history (fst (OnClipboardUpdate (fst (OnClipboardUpdate c n1 (k1, None))) n2 (k2, None)))
           = history (fst (OnClipboardUpdate c n1 (k1, None))))
     \<and> (\<not> duplicateOfLast (history c) k1 \<longrightarrow>
           history (fst (OnClipboardUpdate c n1 (k1, None)))
             = (if 50 \<le> length (history c) then drop 1 (history c) else history c) @ [k1]
         \<and> (cTimestamp k2 - cTimestamp k1 < time_Second \<longrightarrow>
              history (fst (OnClipboardUpdate (fst (OnClipboardUpdate c n1 (k1, None))) n2 (k2, None)))
                = (if 50 \<le> length (history c) then drop 1 (history c) else history c) @ [k1])
         \<and> (time_Second \<le> cTimestamp k2 - cTimestamp k1 \<longrightarrow>
              history (fst (OnClipboardUpdate (fst (OnClipboardUpdate c n1 (k1, None))) n2 (k2, None)))
                = (if 50 \<le> length (history (fst (OnClipboardUpdate c n1 (k1, None))))
                   then drop 1 (history (fst (OnClipboardUpdate c n1 (k1, None))))
                   else history (fst (OnClipboardUpdate c n1 (k1, None)))) @ [k2]))"
proof -
  define c1 where "c1 = fst (OnClipboardUpdate c n1 (k1, None))"
  define c2 where "c2 = fst (OnClipboardUpdate c1 n2 (k2, None))"
  define rot where "rot = (\<lambda>h :: ClipboardContent list. if 50 \<le> length h then drop 1 h else h)"
  have ne2: "cType k2 \<noteq> Empty" using ne1 ty by simp
  have h1: "history c1 = (if duplicateOfLast (history c) k1 then history c else rot (history c) @ [k1])"
    using ns1 ne1 by (simp add: c1_def OnClipboardUpdate_history rot_def)
  have ns2': "\<not> isSelfEvent c1 n2" using ns2 by (simp add: c1_def)
  have h2: "history c2 = (if duplicateOfLast (history c1) k2 then history c1 else rot (history c1) @ [k2])"
    using ns2' ne2 by (simp add: c2_def OnClipboardUpdate_history rot_def)
  have nonempty: "history c1 \<noteq> []"
    by (auto simp: h1 duplicateOfLast_iff)
  have same_as_last: "cType k2 = cType (last (history c1))
      \<and> (if cType k2 = Text then cText k2 = cText (last (history c1))
          else cSizeBytes k2 = cSizeBytes (last (history c1)))"
    using ty mt by (auto simp: h1 duplicateOfLast_iff split: if_splits)
  have dup2: "duplicateOfLast (history c1) k2
                \<longleftrightarrow> cTimestamp k2 - cTimestamp (last (history c1)) < time_Second"
    using nonempty same_as_last by (simp add: duplicateOfLast_iff)
  have A: "cTimestamp k2 - cTimestamp (last (history c1)) < time_Second \<longrightarrow> history c2 = history c1"
    by (simp add: h2 dup2)
  have B: "\<not> duplicateOfLast (history c) k1 \<longrightarrow>
             history c1 = rot (history c) @ [k1]
           \<and> (cTimestamp k2 - cTimestamp k1 < time_Second \<longrightarrow> history c2 = rot (history c) @ [k1])
           \<and> (time_Second \<le> cTimestamp k2 - cTimestamp k1 \<longrightarrow> history c2 = rot (history c1) @ [k2])"
  proof (intro impI)
    assume nd: "\<not> duplicateOfLast (history c) k1"
    then have e1: "history c1 = rot (history c) @ [k1]" by (simp add: h1)
    then have lst: "last (history c1) = k1" by simp
    have d: "duplicateOfLast (history c1) k2 \<longleftrightarrow> cTimestamp k2 - cTimestamp k1 < time_Second"
      by (simp only: dup2 lst)
    have near: "cTimestamp k2 - cTimestamp k1 < time_Second \<longrightarrow> history c2 = rot (history c) @ [k1]"
      using d e1 by (simp add: h2)
    have far: "time_Second \<le> cTimestamp k2 - cTimestamp k1 \<longrightarrow> history c2 = rot (history c1) @ [k2]"
      using d by (simp add: h2)
    from e1 near far show "history c1 = rot (history c) @ [k1]
           \<and> (cTimestamp k2 - cTimestamp k1 < time_Second \<longrightarrow> history c2 = rot (history c) @ [k1])
           \<and> (time_Second \<le> cTimestamp k2 - cTimestamp k1 \<longrightarrow> history c2 = rot (history c1) @ [k2])"
      by blast
  qed
  from nonempty A B show ?thesis
    unfolding c1_def c2_def rot_def by blast
qed

lemma NewController_not_self: "n \<noteq> 0 \<Longrightarrow> \<not> isSelfEvent (NewController cf \<lparr>history := h\<rparr>) n"
  by (simp add: isSelfEvent_set NewController_def Let_def ringBufferSize_def)

text \<open>
  Without the proviso on the first call the statement fails. \<open>echoStart\<close> is the
  controller after one update with the text \<open>a\<close>; the first call of the pair reads the
  same text half a second later and is dropped as the echo of that entry, the second call
  reads it 1.5 seconds after the first and is appended: the pair adds one entry, not two.
\<close>

theorem dedup_pair_counterexample:
  "reachable echoStart
   \<and> \<not> isSelfEvent echoStart 1
   \<and> \<not> isSelfEvent (fst (OnClipboardUpdate echoStart 1 (echoFirst, None))) 2
   \<and> cType echoFirst \<noteq> Empty
   \<and> cType echoSecond = cType echoFirst
   \<and> cType echoFirst = Text \<and> cText echoSecond = cText echoFirst
   \<and> time_Second < cTimestamp echoSecond - cTimestamp echoFirst
   \<and> time_Second < cTimestamp echoSecond
        - cTimestamp (last (history (fst (OnClipboardUpdate echoStart 1 (echoFirst, None)))))
   \<and> history echoStart = [textItem ''x'' ''a'' 0]
   \<and> history (fst (OnClipboardUpdate echoStart 1 (echoFirst, None))) = [textItem ''x'' ''a'' 0]
   \<and> history (fst (OnClipboardUpdate (fst (OnClipboardUpdate echoStart 1 (echoFirst, None)))
                   2 (echoSecond, None)))
       = [textItem ''x'' ''a'' 0, echoSecond]"
proof -
  let ?new = "NewController defaultConfig"
  let ?x = "textItem ''x'' ''a'' 0"
  have new1: "\<not> isSelfEvent ?new 1" and new0: "history ?new = []"
    by (simp_all add: isSelfEvent_set NewController_def Let_def ringBufferSize_def)
  have st: "step ?new (OpOnClipboardUpdate 1 (?x, None)) = Inr (OnClipboardUpdate ?new 1 (?x, None))"
    by simp
  have re: "reachable echoStart"
    unfolding echoStart_def
    by (rule reachable_step [OF reachable_new, of _ "OpOnClipboardUpdate 1 (?x, None)" _
               "snd (OnClipboardUpdate ?new 1 (?x, None))"])
       (simp add: st)
  have h0: "history echoStart = [?x]"
    using new1 new0
    by (simp add: echoStart_def OnClipboardUpdate_history duplicateOfLast_def textItem_def)
  have ring: "selfEventsRing echoStart = selfEventsRing ?new"
    unfolding echoStart_def by (rule OnClipboardUpdate_ring)
  have ns1: "\<not> isSelfEvent echoStart 1" and ns2: "\<not> isSelfEvent echoStart 2"
    by (simp_all add: isSelfEvent_set ring NewController_def Let_def ringBufferSize_def)
  have d1: "duplicateOfLast (history echoStart) echoFirst"
    by (simp add: duplicateOfLast_iff h0 echoFirst_def textItem_def time_Second_def)
  have s1: "fst (OnClipboardUpdate echoStart 1 (echoFirst, None)) = echoStart"
    using ns1 d1 by (simp add: OnClipboardUpdate_def echoFirst_def textItem_def)
  have d2: "\<not> duplicateOfLast (history echoStart) echoSecond"
    by (simp add: duplicateOfLast_iff h0 echoSecond_def textItem_def time_Second_def)
  have e2: "cType echoSecond \<noteq> Empty" by (simp add: echoSecond_def textItem_def)
  have s2: "history (fst (OnClipboardUpdate echoStart 2 (echoSecond, None))) = [?x, echoSecond]"
    using ns2 d2 e2 by (simp add: OnClipboardUpdate_history h0)
  have facts: "cType echoFirst \<noteq> Empty" "cType echoSecond = cType echoFirst"
    "cType echoFirst = Text" "cText echoSecond = cText echoFirst"
    "time_Second < cTimestamp echoSecond - cTimestamp echoFirst"
    "time_Second < cTimestamp echoSecond - cTimestamp (last (history echoStart))"
    by (simp_all add: echoFirst_def echoSecond_def h0 textItem_def time_Second_def)
  from re ns1 ns2 s1 s2 h0 facts show ?thesis by simp
qed

theorem dedup_pair_witness:
  "\<not> isSelfEvent (NewController defaultConfig) 1
   \<and> \<not> isSelfEvent (fst (OnClipboardUpdate (NewController defaultConfig) 1
                            (textItem ''1'' ''a'' 0, None))) 2
   \<and> \<not> duplicateOfLast (history (NewController defaultConfig)) (textItem ''1'' ''a'' 0)
   \<and> history (fst (OnClipboardUpdate
                     (fst (OnClipboardUpdate (NewController defaultConfig) 1
                             (textItem ''1'' ''a'' 0, None)))
                     2 (textItem ''2'' ''a'' 900000000, None)))
       = [textItem ''1'' ''a'' 0]
   \<and> history (fst (OnClipboardUpdate
                     (fst (OnClipboardUpdate (NewController defaultConfig) 1
                             (textItem ''1'' ''a'' 0, None)))
                     2 (textItem ''2'' ''a'' 1100000000, None)))
       = [textItem ''1'' ''a'' 0, textItem ''2'' ''a'' 1100000000]"
proof -
  let ?c = "NewController defaultConfig"
  let ?k1 = "textItem ''1'' ''a'' 0"
  let ?near = "textItem ''2'' ''a'' 900000000"
  let ?far = "textItem ''2'' ''a'' 1100000000"
  have ring1: "selfEventsRing (fst (OnClipboardUpdate ?c 1 (?k1, None))) = selfEventsRing ?c"
    by (rule OnClipboardUpdate_ring)
  have ns1: "\<not> isSelfEvent ?c 1"
    by (simp add: isSelfEvent_set NewController_def Let_def ringBufferSize_def)
  have ns2: "\<not> isSelfEvent (fst (OnClipboardUpdate ?c 1 (?k1, None))) 2"
    by (simp add: isSelfEvent_set ring1) (simp add: NewController_def Let_def ringBufferSize_def)
  have ne1: "cType ?k1 \<noteq> Empty" by (simp add: textItem_def)
  have h0: "history ?c = []" by (simp add: NewController_def Let_def)
  have nd: "\<not> duplicateOfLast (history ?c) ?k1" by (simp add: h0 duplicateOfLast_def)
  have near: "cType ?near = cType ?k1"
    "if cType ?k1 = Text then cText ?near = cText ?k1 else cSizeBytes ?near = cSizeBytes ?k1"
    "cTimestamp ?near - cTimestamp ?k1 < time_Second"
    by (simp_all add: textItem_def time_Second_def)
  have far: "cType ?far = cType ?k1"
    "if cType ?k1 = Text then cText ?far = cText ?k1 else cSizeBytes ?far = cSizeBytes ?k1"
    "time_Second \<le> cTimestamp ?far - cTimestamp ?k1"
    by (simp_all add: textItem_def time_Second_def)
  from dedup_pair [OF ns1 ne1 ns2 near(1) near(2)] nd near(3) h0
  have a: "history (fst (OnClipboardUpdate (fst (OnClipboardUpdate ?c 1 (?k1, None))) 2 (?near, None)))
             = [?k1]"
    by simp
  from dedup_pair [OF ns1 ne1 ns2 far(1) far(2)] nd far(3) h0
  have b: "history (fst (OnClipboardUpdate (fst (OnClipboardUpdate ?c 1 (?k1, None))) 2 (?far, None)))
             = [?k1, ?far]"
    by simp
  from ns1 ns2 nd a b show ?thesis by blast
qed

section \<open>Serialization of signatures\<close>



lemma Uint16_PutUint16: "PutUint16 v = [b0, b1] \<Longrightarrow> Uint16 b0 b1 = v"
proof -
  assume "PutUint16 v = [b0, b1]"
  then have b: "b0 = ucast v" "b1 = ucast (drop_bit 8 v)"
    by (simp_all add: PutUint16_def)
  have "(ucast (ucast v :: 8 word) :: 16 word)
          OR push_bit 8 (ucast (ucast (drop_bit 8 v) :: 8 word)) = v"
  proof (rule bit_word_eqI)
    fix n assume "n < LENGTH(16)"
    then show "bit ((ucast (ucast v :: 8 word) :: 16 word)
                 OR push_bit 8 (ucast (ucast (drop_bit 8 v) :: 8 word))) n = bit v n"
      by (cases "n < 8") (auto simp: bit_or_iff bit_ucast_iff bit_push_bit_iff bit_drop_bit_eq)
  qed
  with b show ?thesis by (simp add: Uint16_def)
qed

lemma unat_len16: "n < 65536 \<Longrightarrow> unat (word_of_nat n :: 16 word) = n"
  by (simp add: unat_of_nat)

lemma SignatureFromBytes_ToBytes:
  "SignatureFromBytes iter (ToBytes s) =
     Inr (decoded iter (SourceType s) (ModifierState s)
            (take (length (RawData s) mod 65536) (RawData s)))"
proof -
  define v :: "16 word" where "v = word_of_nat (length (RawData s))"
  obtain b0 b1 where put: "PutUint16 v = [b0, b1]" by (simp add: PutUint16_def)
  have u: "Uint16 b0 b1 = v" using put by (rule Uint16_PutUint16)
  have n: "unat v = length (RawData s) mod 65536" by (simp add: v_def unat_of_nat)
  have bytes: "ToBytes s = 1 # SourceType s # ModifierState s # b0 # b1 # RawData s"
    using put by (simp add: ToBytes_def v_def)
  have le: "length (RawData s) mod 65536 \<le> length (RawData s)" by simp
  show ?thesis
    unfolding bytes SignatureFromBytes_def
    using le by (simp add: Let_def u n decoded_def)
qed

lemma decoded_fields:
  "SourceType (decoded iter t m raw) = t" "ModifierState (decoded iter t m raw) = m"
  "RawData (decoded iter t m raw) = raw" "RecordedAt (decoded iter t m raw) = 0"
  "Hash (decoded iter t m raw) = computeHash (decoded iter t m raw)"
  "DisplayHint (decoded iter t m raw) = generateDisplayHint iter (decoded iter t m raw)"
  by (simp_all add: decoded_def Let_def computeHash_def generateDisplayHint_def)

text \<open>
  C3: for every signature whose raw data is shorter than 65536 bytes, deserializing its
  serialization succeeds and yields a signature with the same source type, modifier state
  and raw bytes; hash and hint of the result are computed from these three fields, whatever
  hash and hint the serialized signature carried, so that \<open>Equals\<close> holds between the two
  exactly when the serialized signature carried the hash of its fields.
\<close>

theorem roundtrip:
  assumes "length (RawData s) < 65536"
  shows "\<exists>r. SignatureFromBytes iter (ToBytes s) = Inr r
           \<and> SourceType r = SourceType s \<and> ModifierState r = ModifierState s
           \<and> RawData r = RawData s \<and> structEq r s
           \<and> Hash r = computeHash r \<and> DisplayHint r = generateDisplayHint iter r
           \<and> r = decoded iter (SourceType s) (ModifierState s) (RawData s)
           \<and> (Equals r s \<longleftrightarrow> Hash s = computeHash s)"
proof -
  let ?r = "decoded iter (SourceType s) (ModifierState s) (RawData s)"
  have "SignatureFromBytes iter (ToBytes s) = Inr ?r"
    using assms by (simp add: SignatureFromBytes_ToBytes)
  moreover have "computeHash ?r = computeHash s"
    by (simp add: computeHash_def decoded_fields)
  ultimately show ?thesis
    using decoded_fields [of iter "SourceType s" "ModifierState s" "RawData s"]
    by (auto simp: structEq_def Equals_def)
qed


theorem roundtrip_witness:
  "length (RawData ctrlAltC) < 65536
   \<and> (\<exists>r. SignatureFromBytes keyMap (ToBytes ctrlAltC) = Inr r
          \<and> RawData r = [0x43, 0] \<and> SourceType r = SourceKeyboard \<and> ModifierState r = 3
          \<and> Equals r ctrlAltC)"
proof -
  have f: "RawData ctrlAltC = [0x43, 0]" "SourceType ctrlAltC = SourceKeyboard"
    "ModifierState ctrlAltC = 3" "Hash ctrlAltC = computeHash ctrlAltC"
    by (simp_all add: ctrlAltC_def NewInputSignature_def Let_def computeHash_def)
  have l: "length (RawData ctrlAltC) < 65536" by (simp add: f)
  from roundtrip [OF l, of keyMap] f l show ?thesis by auto
qed

text \<open>The only inputs that \<open>SignatureFromBytes\<close> rejects.\<close>

lemma SignatureFromBytes_error_iff:
  "isl (SignatureFromBytes iter data) \<longleftrightarrow> length data < 4 \<or> data ! 0 \<noteq> 1"
  by (auto simp: SignatureFromBytes_def Let_def split: prod.splits)

text \<open>
  \<open>ToBytes\<close> writes the length as a \<^verbatim>\<open>uint16\<close>: a signature with 65536 raw bytes is
  serialized with the length 0 and comes back with no raw bytes.
\<close>

theorem roundtrip_counterexample:
  "length (RawData bigSignature) = 65536
   \<and> \<not> isl (SignatureFromBytes keyMap (ToBytes bigSignature))
   \<and> RawData (projr (SignatureFromBytes keyMap (ToBytes bigSignature))) = []
   \<and> RawData (projr (SignatureFromBytes keyMap (ToBytes bigSignature))) \<noteq> RawData bigSignature"
proof -
  have raw: "RawData bigSignature = replicate 65536 7"
    unfolding bigSignature_def NewInputSignature_def Let_def
    by (simp only: InputSignature.simps)
  have len: "length (RawData bigSignature) = 65536"
    by (simp only: raw length_replicate)
  have zero: "length (RawData bigSignature) mod 65536 = 0"
    by (simp only: len mod_self)
  have r: "SignatureFromBytes keyMap (ToBytes bigSignature)
             = Inr (decoded keyMap (SourceType bigSignature) (ModifierState bigSignature) [])"
    by (simp only: SignatureFromBytes_ToBytes zero take_0)
  have ne: "RawData bigSignature \<noteq> []"
    using len by (metis length_0_conv zero_neq_numeral)
  have p: "RawData (projr (SignatureFromBytes keyMap (ToBytes bigSignature))) = []"
    by (simp only: r sum.sel decoded_fields)
  have i: "\<not> isl (SignatureFromBytes keyMap (ToBytes bigSignature))"
    by (simp only: r sum.disc simp_thms)
  from len i p ne show ?thesis by (simp only: simp_thms not_False_eq_True not_sym [OF ne])
qed

text \<open>
  C4: an input whose declared length exceeds the bytes that follow is rejected with an
  error. \<open>SignatureFromBytes\<close> accepts the five bytes that declare five raw bytes and
  carry none, and returns five zero bytes as the raw data; it accepts the four bytes in
  which the length field itself is cut, with no raw data.
\<close>

theorem truncated_input_accepted:
  "\<not> isl (SignatureFromBytes keyMap [1, 0, 0, 5, 0])
   \<and> RawData (projr (SignatureFromBytes keyMap [1, 0, 0, 5, 0])) = [0, 0, 0, 0, 0]
   \<and> \<not> isl (SignatureFromBytes keyMap [1, 0, 0, 5])
   \<and> RawData (projr (SignatureFromBytes keyMap [1, 0, 0, 5])) = []"
proof -
  have five: "replicate 5 (0 :: 8 word) = [0, 0, 0, 0, 0]"
    by (simp add: numeral_eq_Suc)
  have len: "Uint16 5 0 = 5" by (simp add: Uint16_def)
  have a: "SignatureFromBytes keyMap [1, 0, 0, 5, 0]
             = Inr (decoded keyMap 0 0 [0, 0, 0, 0, 0])"
    by (simp add: SignatureFromBytes_def Let_def len five decoded_def)
  have b: "SignatureFromBytes keyMap [1, 0, 0, 5] = Inr (decoded keyMap 0 0 [])"
    by (simp add: SignatureFromBytes_def Let_def decoded_def)
  show ?thesis by (simp add: a b decoded_fields)
qed

section \<open>Matching\<close>



lemma buckets_ok_New: "buckets_ok NewSignatureMatcher"
  by (simp add: buckets_ok_def NewSignatureMatcher_def)

lemma buckets_ok_UnregisterAll: "buckets_ok (UnregisterAll m)"
  by (simp add: buckets_ok_def UnregisterAll_def)

lemma buckets_ok_Register:
  assumes "buckets_ok m"
  shows "buckets_ok (Register m sig ident cb)"
  unfolding buckets_ok_def
proof (intro allI impI ballI)
  fix h regs r
  assume reg: "Register m sig ident cb h = Some regs" and r: "r \<in> set regs"
  show "Hash (Signature r) = h"
  proof (cases "h = Hash sig")
    case True
    show ?thesis
    proof (cases "m (Hash sig)")
      case None
      with reg r True show ?thesis by (auto simp: Register_def Let_def)
    next
      case (Some old)
      with assms have "\<forall>x \<in> set old. Hash (Signature x) = Hash sig"
        by (auto simp: buckets_ok_def)
      with reg r True Some show ?thesis by (auto simp: Register_def Let_def)
    qed
  next
    case False
    with reg have "m h = Some regs" by (simp add: Register_def Let_def)
    with assms r show ?thesis by (auto simp: buckets_ok_def)
  qed
qed

lemma removeFirstID_subset: "removeFirstID regs ident = Some regs1 \<Longrightarrow> set regs1 \<subseteq> set regs"
  by (induction regs arbitrary: regs1) (auto split: if_splits option.splits)

lemma buckets_ok_Unregister: "buckets_ok m \<Longrightarrow> buckets_ok (Unregister hs m ident)"
proof (induction hs)
  case Nil
  then show ?case by simp
next
  case (Cons h hs)
  then show ?case
    by (auto simp: buckets_ok_def split: option.splits if_splits dest!: removeFirstID_subset)
qed

lemma built_buckets_ok: "built m \<Longrightarrow> buckets_ok m"
  by (induction rule: built.induct)
     (auto intro: buckets_ok_New buckets_ok_Register buckets_ok_Unregister buckets_ok_UnregisterAll)

lemma Equals_in_bucket: "Hash a = Hash b \<Longrightarrow> Equals a b \<longleftrightarrow> structEq a b"
  by (auto simp: Equals_def structEq_def)

lemma matchLoop_first:
  assumes "\<forall>r \<in> set regs. Hash (Signature r) = Hash q"
  shows "matchLoop regs q = Some cb \<longleftrightarrow>
           (\<exists>i < length regs. structEq (Signature (regs ! i)) q
              \<and> (\<forall>j < i. \<not> structEq (Signature (regs ! j)) q)
              \<and> Callback (regs ! i) = Some cb)"
  using assms
proof (induction regs)
  case Nil
  then show ?case by simp
next
  case (Cons r regs)
  have eq: "Equals (Signature r) q \<longleftrightarrow> structEq (Signature r) q"
    using Cons.prems by (simp add: Equals_in_bucket)
  show ?case
  proof (cases "structEq (Signature r) q")
    case True
    have "(\<exists>i < length (r # regs). structEq (Signature ((r # regs) ! i)) q
              \<and> (\<forall>j < i. \<not> structEq (Signature ((r # regs) ! j)) q)
              \<and> Callback ((r # regs) ! i) = Some cb) \<longleftrightarrow> Callback r = Some cb"
    proof
      assume "\<exists>i < length (r # regs). structEq (Signature ((r # regs) ! i)) q
              \<and> (\<forall>j < i. \<not> structEq (Signature ((r # regs) ! j)) q)
              \<and> Callback ((r # regs) ! i) = Some cb"
      then obtain i where i: "structEq (Signature ((r # regs) ! i)) q"
        "\<forall>j < i. \<not> structEq (Signature ((r # regs) ! j)) q" "Callback ((r # regs) ! i) = Some cb"
        by blast
      have "i = 0"
      proof (rule ccontr)
        assume "i \<noteq> 0"
        then have "0 < i" by simp
        with i(2) have "\<not> structEq (Signature ((r # regs) ! 0)) q" by blast
        with True show False by simp
      qed
      with i(3) show "Callback r = Some cb" by simp
    next
      assume "Callback r = Some cb"
      with True show "\<exists>i < length (r # regs). structEq (Signature ((r # regs) ! i)) q
              \<and> (\<forall>j < i. \<not> structEq (Signature ((r # regs) ! j)) q)
              \<and> Callback ((r # regs) ! i) = Some cb"
        by (intro exI [of _ 0]) simp
    qed
    with True eq show ?thesis by simp
  next
    case False
    have ih: "matchLoop regs q = Some cb \<longleftrightarrow>
           (\<exists>i < length regs. structEq (Signature (regs ! i)) q
              \<and> (\<forall>j < i. \<not> structEq (Signature (regs ! j)) q)
              \<and> Callback (regs ! i) = Some cb)"
      using Cons.IH Cons.prems by simp
    have shift: "(\<exists>i < length (r # regs). structEq (Signature ((r # regs) ! i)) q
              \<and> (\<forall>j < i. \<not> structEq (Signature ((r # regs) ! j)) q)
              \<and> Callback ((r # regs) ! i) = Some cb)
        \<longleftrightarrow> (\<exists>i < length regs. structEq (Signature (regs ! i)) q
              \<and> (\<forall>j < i. \<not> structEq (Signature (regs ! j)) q)
              \<and> Callback (regs ! i) = Some cb)" (is "?L \<longleftrightarrow> ?R")
    proof
      assume ?L
      then obtain i where i: "i < length (r # regs)" "structEq (Signature ((r # regs) ! i)) q"
        "\<forall>j < i. \<not> structEq (Signature ((r # regs) ! j)) q" "Callback ((r # regs) ! i) = Some cb"
        by blast
      from i(2) False obtain k where k: "i = Suc k" by (cases i) auto
      have "\<forall>j < k. \<not> structEq (Signature (regs ! j)) q"
      proof (intro allI impI)
        fix j assume "j < k"
        then have "Suc j < i" using k by simp
        with i(3) have "\<not> structEq (Signature ((r # regs) ! Suc j)) q" by blast
        then show "\<not> structEq (Signature (regs ! j)) q" by simp
      qed
      with i k show ?R by (intro exI [of _ k]) simp
    next
      assume ?R
      then obtain k where k: "k < length regs" "structEq (Signature (regs ! k)) q"
        "\<forall>j < k. \<not> structEq (Signature (regs ! j)) q" "Callback (regs ! k) = Some cb"
        by blast
      have "\<forall>j < Suc k. \<not> structEq (Signature ((r # regs) ! j)) q"
      proof (intro allI impI)
        fix j assume j: "j < Suc k"
        show "\<not> structEq (Signature ((r # regs) ! j)) q"
        proof (cases j)
          case 0
          with False show ?thesis by simp
        next
          case (Suc l)
          with j k(3) show ?thesis by simp
        qed
      qed
      with k show ?L by (intro exI [of _ "Suc k"]) simp
    qed
    from False eq ih shift show ?thesis by simp
  qed
qed

lemma matchLoop_first_value:
  assumes "\<forall>r \<in> set regs. Hash (Signature r) = Hash q"
    and "i < length regs" and "structEq (Signature (regs ! i)) q"
    and "\<forall>j < i. \<not> structEq (Signature (regs ! j)) q"
  shows "matchLoop regs q = Callback (regs ! i)"
  using assms
proof (induction regs arbitrary: i)
  case Nil
  then show ?case by simp
next
  case (Cons r regs)
  have eq: "Equals (Signature r) q \<longleftrightarrow> structEq (Signature r) q"
    using Cons.prems(1) by (simp add: Equals_in_bucket)
  show ?case
  proof (cases i)
    case 0
    with Cons.prems(3) eq show ?thesis by simp
  next
    case (Suc k)
    with Cons.prems(4) have "\<not> structEq (Signature ((r # regs) ! 0)) q" by blast
    then have no: "\<not> Equals (Signature r) q" using eq by simp
    have later: "\<forall>j < k. \<not> structEq (Signature (regs ! j)) q"
    proof (intro allI impI)
      fix j assume "j < k"
      then have "Suc j < i" using Suc by simp
      with Cons.prems(4) have "\<not> structEq (Signature ((r # regs) ! Suc j)) q" by blast
      then show "\<not> structEq (Signature (regs ! j)) q" by simp
    qed
    have "matchLoop regs q = Callback (regs ! k)"
      using Cons.prems Suc later by (intro Cons.IH) simp_all
    with no Suc show ?thesis by simp
  qed
qed

lemma matchLoop_None:
  assumes "\<forall>r \<in> set regs. Hash (Signature r) = Hash q"
    and "\<forall>r \<in> set regs. \<not> structEq (Signature r) q"
  shows "matchLoop regs q = None"
  using assms by (induction regs) (auto simp: Equals_in_bucket)

lemma matchLoop_some_iff:
  "\<forall>r \<in> set rs. Hash (Signature r) = Hash q \<and> Callback r \<noteq> None \<Longrightarrow>
     (\<exists>cb1. matchLoop rs q = Some cb1) \<longleftrightarrow> (\<exists>r \<in> set rs. structEq (Signature r) q)"
  by (induction rs) (auto simp: Equals_in_bucket)

text \<open>
  C2: in a registry whose registrations lie in the buckets of their hashes (every registry
  that \<open>Register\<close>, \<open>Unregister\<close> and \<open>UnregisterAll\<close> build is one, by
  \<open>built_buckets_ok\<close>), \<open>Match\<close> returns the callback of the first registration in the
  bucket of the query's hash whose signature is structurally equal to the query, which is
  \<^verbatim>\<open>nil\<close> where that registration carries a \<^verbatim>\<open>nil\<close> callback; it returns \<^verbatim>\<open>nil\<close> where
  no registration of the bucket is structurally equal, so a registration that only shares
  the hash is never returned. Hence \<open>Match\<close> returns the callback \<open>cb\<close> exactly when the
  first structurally equal registration carries \<open>cb\<close>, and, where no callback registered in
  the bucket is \<^verbatim>\<open>nil\<close>, it returns a callback exactly when some registration of the
  bucket is structurally equal.
\<close>

theorem Match_first_structural:
  assumes "buckets_ok m"
  shows "(\<forall>regs i. m (Hash q) = Some regs \<and> i < length regs
               \<and> structEq (Signature (regs ! i)) q
               \<and> (\<forall>j < i. \<not> structEq (Signature (regs ! j)) q)
            \<longrightarrow> Match m q = Callback (regs ! i))
       \<and> (Match m q = Some cb \<longleftrightarrow>
            (\<exists>regs i. m (Hash q) = Some regs \<and> i < length regs
               \<and> structEq (Signature (regs ! i)) q
               \<and> (\<forall>j < i. \<not> structEq (Signature (regs ! j)) q)
               \<and> Callback (regs ! i) = Some cb))
       \<and> ((\<forall>regs. m (Hash q) = Some regs \<longrightarrow> (\<forall>r \<in> set regs. \<not> structEq (Signature r) q))
            \<longrightarrow> Match m q = None)
       \<and> (\<forall>regs. m (Hash q) = Some regs \<and> (\<forall>r \<in> set regs. Callback r \<noteq> None) \<longrightarrow>
            ((\<exists>cb1. Match m q = Some cb1) \<longleftrightarrow> (\<exists>r \<in> set regs. structEq (Signature r) q)))"
proof (intro conjI)
  show "\<forall>regs i. m (Hash q) = Some regs \<and> i < length regs
               \<and> structEq (Signature (regs ! i)) q
               \<and> (\<forall>j < i. \<not> structEq (Signature (regs ! j)) q)
            \<longrightarrow> Match m q = Callback (regs ! i)"
  proof (intro allI impI)
    fix regs i
    assume a: "m (Hash q) = Some regs \<and> i < length regs
               \<and> structEq (Signature (regs ! i)) q
               \<and> (\<forall>j < i. \<not> structEq (Signature (regs ! j)) q)"
    with assms have "\<forall>r \<in> set regs. Hash (Signature r) = Hash q"
      by (auto simp: buckets_ok_def)
    from matchLoop_first_value [OF this, of i] a
    show "Match m q = Callback (regs ! i)" by (simp add: Match_def)
  qed
next
  show "Match m q = Some cb \<longleftrightarrow>
            (\<exists>regs i. m (Hash q) = Some regs \<and> i < length regs
               \<and> structEq (Signature (regs ! i)) q
               \<and> (\<forall>j < i. \<not> structEq (Signature (regs ! j)) q)
               \<and> Callback (regs ! i) = Some cb)"
  proof (cases "m (Hash q)")
    case None
    then show ?thesis by (simp add: Match_def)
  next
    case (Some regs)
    with assms have "\<forall>r \<in> set regs. Hash (Signature r) = Hash q"
      by (auto simp: buckets_ok_def)
    from matchLoop_first [OF this, of cb] Some show ?thesis
      by (simp add: Match_def)
  qed
next
  show "(\<forall>regs. m (Hash q) = Some regs \<longrightarrow> (\<forall>r \<in> set regs. \<not> structEq (Signature r) q))
            \<longrightarrow> Match m q = None"
  proof (cases "m (Hash q)")
    case None
    then show ?thesis by (simp add: Match_def)
  next
    case (Some regs)
    with assms have "\<forall>r \<in> set regs. Hash (Signature r) = Hash q"
      by (auto simp: buckets_ok_def)
    from matchLoop_None [OF this] Some show ?thesis
      by (auto simp: Match_def)
  qed
next
  show "\<forall>regs. m (Hash q) = Some regs \<and> (\<forall>r \<in> set regs. Callback r \<noteq> None) \<longrightarrow>
            ((\<exists>cb1. Match m q = Some cb1) \<longleftrightarrow> (\<exists>r \<in> set regs. structEq (Signature r) q))"
  proof (intro allI impI)
    fix regs
    assume a: "m (Hash q) = Some regs \<and> (\<forall>r \<in> set regs. Callback r \<noteq> None)"
    with assms have h: "\<forall>r \<in> set regs. Hash (Signature r) = Hash q"
      by (auto simp: buckets_ok_def)
    from matchLoop_some_iff [of regs q] a h
    show "(\<exists>cb1. Match m q = Some cb1) \<longleftrightarrow> (\<exists>r \<in> set regs. structEq (Signature r) q)"
      by (simp add: Match_def)
  qed
qed

text \<open>
  Without the proviso on \<^verbatim>\<open>nil\<close> callbacks the equivalence fails: \<open>Register\<close> stores a
  \<^verbatim>\<open>nil\<close> callback as any other, and \<open>Match\<close> returns it. In \<open>nilRegistry\<close> the bucket of
  the query holds a registration with the query's own signature, and \<open>Match\<close> returns
  \<^verbatim>\<open>nil\<close>, as it does where nothing matches.
\<close>

theorem Match_nil_callback_counterexample:
  "built nilRegistry
   \<and> buckets_ok nilRegistry
   \<and> nilRegistry (Hash ctrlAltC)
       = Some [\<lparr>Signature = ctrlAltC, Callback = None, ID = ''toggle''\<rparr>]
   \<and> structEq ctrlAltC ctrlAltC
   \<and> Equals ctrlAltC ctrlAltC
   \<and> Match nilRegistry ctrlAltC = None"
proof -
  have b: "built nilRegistry"
    unfolding nilRegistry_def by (intro built_Register built_New)
  then have ok: "buckets_ok nilRegistry" by (rule built_buckets_ok)
  have bucket: "nilRegistry (Hash ctrlAltC)
                  = Some [\<lparr>Signature = ctrlAltC, Callback = None, ID = ''toggle''\<rparr>]"
    by (simp add: nilRegistry_def Register_def NewSignatureMatcher_def Let_def)
  have eq: "structEq ctrlAltC ctrlAltC" "Equals ctrlAltC ctrlAltC"
    by (simp_all add: structEq_def Equals_def)
  have m: "Match nilRegistry ctrlAltC = None"
    by (simp add: Match_def bucket eq)
  from b ok bucket eq m show ?thesis by blast
qed

theorem Match_first_structural_witness:
  "buckets_ok twoInBucket
   \<and> twoInBucket (Hash sigTwo) = Some
         [\<lparr>Signature = sigOne, Callback = Some 1, ID = ''one''\<rparr>,
          \<lparr>Signature = sigTwo, Callback = Some 2, ID = ''two''\<rparr>]
   \<and> Hash sigOne = Hash sigTwo \<and> \<not> structEq sigOne sigTwo
   \<and> Match twoInBucket sigTwo = Some 2
   \<and> Match twoInBucket (sigTwo\<lparr>RawData := [3]\<rparr>) = None
   \<and> ((\<exists>cb1. Match twoInBucket sigOne = Some cb1)
        \<longleftrightarrow> (\<exists>r \<in> set [\<lparr>Signature = sigOne, Callback = Some (1 :: nat), ID = ''one''\<rparr>,
                         \<lparr>Signature = sigTwo, Callback = Some 2, ID = ''two''\<rparr>].
               structEq (Signature r) sigOne))"
proof -
  let ?regs = "[\<lparr>Signature = sigOne, Callback = Some (1::nat), ID = ''one''\<rparr>,
                \<lparr>Signature = sigTwo, Callback = Some 2, ID = ''two''\<rparr>]"
  have ok: "buckets_ok twoInBucket"
    unfolding twoInBucket_def by (intro buckets_ok_Register buckets_ok_New)
  have bucket: "twoInBucket (Hash sigTwo) = Some ?regs"
    by (simp add: twoInBucket_def Register_def NewSignatureMatcher_def Let_def
          sigOne_def sigTwo_def)
  have h: "Hash sigOne = Hash sigTwo" "\<not> structEq sigOne sigTwo"
    by (simp_all add: sigOne_def sigTwo_def structEq_def)
  have first: "\<exists>regs i. twoInBucket (Hash sigTwo) = Some regs \<and> i < length regs
               \<and> structEq (Signature (regs ! i)) sigTwo
               \<and> (\<forall>j < i. \<not> structEq (Signature (regs ! j)) sigTwo)
               \<and> Callback (regs ! i) = Some 2"
    using bucket h(2) by (intro exI [of _ ?regs] exI [of _ 1]) (simp add: structEq_def)
  from Match_first_structural [OF ok, of sigTwo 2] first
  have m: "Match twoInBucket sigTwo = Some 2" by blast
  have bucket3: "twoInBucket (Hash (sigTwo\<lparr>RawData := [3]\<rparr>)) = Some ?regs"
    using bucket by simp
  have none: "\<forall>regs. twoInBucket (Hash (sigTwo\<lparr>RawData := [3]\<rparr>)) = Some regs \<longrightarrow>
                (\<forall>r \<in> set regs. \<not> structEq (Signature r) (sigTwo\<lparr>RawData := [3]\<rparr>))"
  proof (intro allI impI)
    fix regs
    assume "twoInBucket (Hash (sigTwo\<lparr>RawData := [3]\<rparr>)) = Some regs"
    with bucket3 have "regs = ?regs" by simp
    then show "\<forall>r \<in> set regs. \<not> structEq (Signature r) (sigTwo\<lparr>RawData := [3]\<rparr>)"
      by (simp add: structEq_def sigOne_def sigTwo_def)
  qed
  from Match_first_structural [OF ok, of "sigTwo\<lparr>RawData := [3]\<rparr>" 2] none
  have n: "Match twoInBucket (sigTwo\<lparr>RawData := [3]\<rparr>) = None" by blast
  have bucket1: "twoInBucket (Hash sigOne) = Some ?regs \<and> (\<forall>r \<in> set ?regs. Callback r \<noteq> None)"
    using bucket h(1) by simp
  from Match_first_structural [OF ok, of sigOne 1] bucket1
  have e: "(\<exists>cb1. Match twoInBucket sigOne = Some cb1)
             \<longleftrightarrow> (\<exists>r \<in> set ?regs. structEq (Signature r) sigOne)"
    by blast
  from ok bucket h m n e show ?thesis by blast
qed

section \<open>Unknown keys in legacy hotkey strings\<close>

text \<open>The parser of package config returns the unknown-key error.\<close>

lemma config_parseParts_unknown:
  "\<exists>p \<in> set ps. unknownPart (TrimSpace p) \<Longrightarrow>
     \<exists>part. config_parseParts ps modifiers vk foundKey = Inl (UnknownKey part)"
proof (induction ps arbitrary: modifiers vk foundKey)
  case Nil
  then show ?case by simp
next
  case (Cons p ps)
  show ?case
  proof (cases "unknownPart (TrimSpace p)")
    case True
    then show ?thesis by (simp add: unknownPart_def Let_def)
  next
    case False
    with Cons.prems have "\<exists>q \<in> set ps. unknownPart (TrimSpace q)" by auto
    from Cons.IH [OF this] show ?thesis
      by (auto simp: Let_def split: option.splits)
  qed
qed

lemma config_parseHotkey_unknown:
  assumes "isASCII s"
    and unknown: "\<exists>p \<in> set (Split (ToUpper s) CHR ''+''). unknownPart (TrimSpace p)"
  shows "\<exists>part. config_parseHotkey s = (0, 0, Some (UnknownKey part))"
proof -
  from config_parseParts_unknown [OF unknown, of 0 0 False] obtain part where
    "config_parseParts (Split (ToUpper s) CHR ''+'') 0 0 False = Inl (UnknownKey part)" by blast
  then show ?thesis by (simp add: config_parseHotkey_def)
qed

text \<open>The parser of \<^verbatim>\<open>Hotkeys\<close> returns a \<^verbatim>\<open>nil\<close> error on every input.\<close>

lemma Hotkeys_parseHotkey_nil: "snd (snd (Hotkeys_parseHotkey s)) = None"
  by (simp add: Hotkeys_parseHotkey_def split: option.splits prod.splits)

lemma ToUpper_Ctrl_Foo: "ToUpper ''Ctrl+Foo'' = ''CTRL+FOO''"
  by code_simp

lemma ToUpper_Ctrl_Foo_C: "ToUpper ''Ctrl+Foo+C'' = ''CTRL+FOO+C''"
  by code_simp

lemma TrimSpace_parts:
  "TrimSpace ''CTRL'' = ''CTRL''" "TrimSpace ''FOO'' = ''FOO''" "TrimSpace ''C'' = ''C''"
  by (simp_all add: TrimSpace_def isSpace_def)

lemma keyMap_parts: "map_of keyMap ''FOO'' = None" "map_of keyMap ''C'' = Some 0x43"
  by (simp_all add: keyMap_def)

text \<open>
  The parser of \<^verbatim>\<open>Host\<close> skips the unknown part and returns the signature of the rest.
\<close>

lemma parseHotkeyToSignature_skips_unknown:
  "parseHotkeyToSignature decode keyMap now ''Ctrl+Foo+C''
     = Some (NewInputSignature keyMap now SourceKeyboard [0x43, 0, 0, 0, 0, 0, 0, 0, 0, 0] ModCtrl)"
proof -
  have s: "Split ''CTRL+FOO+C'' CHR ''+'' = [''CTRL'', ''FOO'', ''C'']" by simp
  have p: "Host_parseParts (Split (ToUpper ''Ctrl+Foo+C'') CHR ''+'') 0 0 = (ModCtrl, 0x43)"
    by (simp add: ToUpper_Ctrl_Foo_C s TrimSpace_parts keyMap_parts Let_def)
  have e: "replicate 8 (0 :: 8 word) = [0, 0, 0, 0, 0, 0, 0, 0]"
    by (simp add: numeral_eq_Suc)
  have r: "PutUint16 67 @ replicate 8 0 = [0x43, 0, 0, 0, 0, 0, 0, 0, 0, 0]"
    unfolding e by (simp add: PutUint16_def)
  show ?thesis
    by (simp add: parseHotkeyToSignature_def p Let_def) (simp only: r)
qed

text \<open>
  C9: a legacy hotkey string with a part that is neither a modifier nor a key of the
  table fails with an unknown-key error in every parser of the legacy form. For the string
  \<^verbatim>\<open>Ctrl+Foo\<close> the parser of package config returns the error, and the parser of
  \<^verbatim>\<open>Hotkeys\<close> returns \<^verbatim>\<open>0, 0, nil\<close>.
\<close>

theorem Hotkeys_parseHotkey_unknown_key:
  "unknownPart (TrimSpace ''FOO'')
   \<and> Split (ToUpper ''Ctrl+Foo'') CHR ''+'' = [''CTRL'', ''FOO'']
   \<and> config_parseHotkey ''Ctrl+Foo'' = (0, 0, Some (UnknownKey ''FOO''))
   \<and> Hotkeys_parseHotkey ''Ctrl+Foo'' = (0, 0, None)"
proof -
  have s: "Split ''CTRL+FOO'' CHR ''+'' = [''CTRL'', ''FOO'']" by simp
  have u: "unknownPart (TrimSpace ''FOO'')"
    by (simp add: unknownPart_def TrimSpace_parts keyMap_parts)
  have c: "config_parseHotkey ''Ctrl+Foo'' = (0, 0, Some (UnknownKey ''FOO''))"
    by (simp add: config_parseHotkey_def ToUpper_Ctrl_Foo s TrimSpace_parts keyMap_parts Let_def)
  have h: "Hotkeys_parseHotkey ''Ctrl+Foo'' = (0, 0, None)"
    by (simp add: Hotkeys_parseHotkey_def ToUpper_Ctrl_Foo s TrimSpace_parts keyMap_parts Let_def)
  from u s c h show ?thesis by (simp add: ToUpper_Ctrl_Foo)
qed

end
